theory Spec2Isabelle
  imports Main "HOL-Library.AList"
begin

section \<open>JavaScript values\<close>

text \<open>
  The client of \<^verbatim>\<open>src/clients/typescript/path-types.ts\<close> (class
  \<^verbatim>\<open>JrpcWebSocketClient\<close>) receives whatever \<^verbatim>\<open>JSON.parse\<close> returns and
  hands \<^verbatim>\<open>unknown\<close> values to its callers. \<open>jsval\<close> is the type of these
  values: the JSON values and \<^verbatim>\<open>undefined\<close>, which is what reading a missing
  property gives. A number of JavaScript is a double; \<open>JNum i\<close> is the number whose
  value is the integer \<open>i\<close>, and the numbers of the model are the safe integers
  (\<^verbatim>\<open>Number.isSafeInteger\<close>), which a double holds exactly: request ids and error
  codes are such integers on this wire protocol. Fractions and larger magnitudes are not
  values of the model.
\<close>

datatype jsval = Undefined | JNull | JBool bool | JNum int | JStr string
  | JArr "jsval list" | JObj "(string \<times> jsval) list"

text \<open>Decimal digits of a natural number, most significant first.\<close>

fun digits :: "nat \<Rightarrow> string" where
  "digits n = (if n < 10 then [''0123456789'' ! n]
               else digits (n div 10) @ [''0123456789'' ! (n mod 10)])"

declare digits.simps [simp del]

text \<open>\<^verbatim>\<open>Number.isSafeInteger\<close>: at most \<^verbatim>\<open>Number.MAX_SAFE_INTEGER\<close> in magnitude.\<close>

definition safe_integer :: "int \<Rightarrow> bool" where
  "safe_integer i \<longleftrightarrow> - (2 ^ 53 - 1) \<le> i \<and> i \<le> 2 ^ 53 - 1"

text \<open>
  The string of a number: a safe integer is printed in full, in decimal. What a number
  outside the model would print (\<^verbatim>\<open>1e+21\<close> for ten to the power 21) is left
  unspecified.
\<close>

definition number_string :: "int \<Rightarrow> string" where
  "number_string i =
     (if safe_integer i
      then (if i < 0 then CHR ''-'' # digits (nat (- i)) else digits (nat i))
      else undefined)"

datatype js_error = Error string | TypeError | SyntaxError | InvalidStateError

text \<open>
  The string a template literal \<^verbatim>\<open>`${x}`\<close> puts in place of \<open>x\<close>. An array is
  its elements joined by commas, with \<^verbatim>\<open>null\<close> and \<^verbatim>\<open>undefined\<close>
  elements left empty. An object is \<^verbatim>\<open>[object Object]\<close>, the result of
  \<^verbatim>\<open>Object.prototype.toString\<close>, unless it has a property \<^verbatim>\<open>toString\<close> of its
  own: a value that \<^verbatim>\<open>JSON.parse\<close> has made is no function, the inherited
  \<^verbatim>\<open>valueOf\<close> returns the object itself, and the conversion throws a
  \<^verbatim>\<open>TypeError\<close>. The first element of an array that throws ends the join.
\<close>

fun js_string :: "jsval \<Rightarrow> js_error + string"
  and js_join :: "jsval list \<Rightarrow> js_error + string" where
  "js_string Undefined = Inr ''undefined''"
| "js_string JNull = Inr ''null''"
| "js_string (JBool b) = Inr (if b then ''true'' else ''false'')"
| "js_string (JNum i) = Inr (number_string i)"
| "js_string (JStr s) = Inr s"
| "js_string (JArr xs) = js_join xs"
| "js_string (JObj kv) =
     (if map_of kv ''toString'' \<noteq> None then Inl TypeError else Inr ''[object Object]'')"
| "js_join [] = Inr ''''"
| "js_join (x # xs) =
     (case (if x = Undefined \<or> x = JNull then Inr '''' else js_string x) of
        Inl e \<Rightarrow> Inl e
      | Inr s \<Rightarrow>
          (if xs = [] then Inr s
           else (case js_join xs of
                   Inl e \<Rightarrow> Inl e
                 | Inr r \<Rightarrow> Inr (s @ CHR '','' # r))))"

text \<open>Truthiness, as the condition of an \<^verbatim>\<open>if\<close> reads a value.\<close>

fun truthy :: "jsval \<Rightarrow> bool" where
  "truthy Undefined = False"
| "truthy JNull = False"
| "truthy (JBool b) = b"
| "truthy (JNum i) = (i \<noteq> 0)"
| "truthy (JStr s) = (s \<noteq> [])"
| "truthy (JArr xs) = True"
| "truthy (JObj kv) = True"

text \<open>
  Property read \<^verbatim>\<open>v.k\<close> for the keys the client reads (\<^verbatim>\<open>id\<close>,
  \<^verbatim>\<open>error\<close>, \<^verbatim>\<open>result\<close>, \<^verbatim>\<open>message\<close>, \<^verbatim>\<open>code\<close>): an object gives
  the value stored under the key, everything else \<^verbatim>\<open>undefined\<close>. The client
  reads properties of values it has found truthy or has passed through \<^verbatim>\<open>in\<close> only,
  so the read itself never throws.
\<close>

fun get_prop :: "jsval \<Rightarrow> string \<Rightarrow> jsval" where
  "get_prop (JObj kv) k = (case map_of kv k of Some v \<Rightarrow> v | None \<Rightarrow> Undefined)"
| "get_prop v k = Undefined"

text \<open>
  \<^verbatim>\<open>k in v\<close>: a \<^verbatim>\<open>TypeError\<close> when \<open>v\<close> is not an object; arrays are objects
  and own no property \<^verbatim>\<open>id\<close>.
\<close>

fun js_in :: "string \<Rightarrow> jsval \<Rightarrow> js_error + bool" where
  "js_in k (JObj kv) = Inr (map_of kv k \<noteq> None)"
| "js_in k (JArr xs) = Inr False"
| "js_in k v = Inl TypeError"

section \<open>The state of the client and of the JavaScript runtime around it\<close>

datatype WebSocketState = connecting | connected | disconnected | error

text \<open>\<^verbatim>\<open>WebSocket.readyState\<close>.\<close>

datatype ready_state = CONNECTING | OPEN | CLOSING | CLOSED

datatype promise_state = Pending | Fulfilled jsval | Rejected js_error

text \<open>
  \<^verbatim>\<open>ClientOptions\<close>, and \<^verbatim>\<open>Required<ClientOptions>\<close> as the constructor
  builds it: \<open>None\<close> is a property the caller left out.
\<close>

record ClientOptions =
  url :: string
  reconnect :: "bool option"
  reconnectDelay :: "nat option"
  timeout :: "nat option"

record RequiredOptions =
  r_url :: string
  r_reconnect :: bool
  r_reconnectDelay :: nat
  r_timeout :: nat

text \<open>
  An entry of \<^verbatim>\<open>pendingRequests\<close> is a pair of closures
  \<^verbatim>\<open>{resolve, reject}\<close>. \<^verbatim>\<open>request\<close> stores closures that clear the
  timer \<open>timeoutId\<close> and then settle the promise; \<^verbatim>\<open>batch\<close> stores the bare
  \<^verbatim>\<open>resolve\<close> and \<^verbatim>\<open>reject\<close> of the element's promise. The entry records
  which of the two it is and what the closures captured.
\<close>

datatype pending_entry =
    FromRequest nat nat  \<comment> \<open>\<open>timeoutId\<close>, promise\<close>
  | FromBatch nat  \<comment> \<open>promise\<close>

text \<open>The callback handed to \<^verbatim>\<open>setTimeout\<close>, with what it captured.\<close>

datatype timer_task =
    RequestTimeout nat string nat  \<comment> \<open>\<open>id\<close>, \<open>method\<close>, promise (\<^verbatim>\<open>request\<close>)\<close>
  | Reconnect  \<comment> \<open>\<^verbatim>\<open>handleDisconnect\<close>\<close>

text \<open>What runs when the promise returned by \<^verbatim>\<open>connect()\<close> settles.\<close>

datatype continuation =
    ThenNothing  \<comment> \<open>\<^verbatim>\<open>connect()\<close> called from outside\<close>
  | ThenRequest string jsval nat  \<comment> \<open>the rest of \<^verbatim>\<open>request(method, params)\<close>, its promise\<close>
  | ThenBatch "(string \<times> jsval) list" nat  \<comment> \<open>the rest of \<^verbatim>\<open>batch(requests)\<close>, its promise\<close>
  | CatchReconnect  \<comment> \<open>the \<^verbatim>\<open>.catch\<close> of the reconnection timer\<close>

text \<open>
  A socket made by \<^verbatim>\<open>connect()\<close>: its \<^verbatim>\<open>readyState\<close>, the state of the
  promise that this call of \<^verbatim>\<open>connect()\<close> returned (the four handlers of the
  socket are closures over its \<^verbatim>\<open>resolve\<close> and \<^verbatim>\<open>reject\<close>), and who awaits
  that promise.
\<close>

record socket =
  readyState :: ready_state
  opened :: promise_state
  awaiter :: continuation

record JrpcRequest =
  req_method :: string
  req_params :: jsval
  req_id :: nat

datatype frame = Single JrpcRequest | Array "JrpcRequest list"

datatype console_entry =
    Warn string jsval
  | ErrorLog string js_error
  | Log string

text \<open>
  The fields of \<^verbatim>\<open>JrpcWebSocketClient\<close> come first and keep their names. The
  others are the part of the JavaScript runtime the client acts on: the promises it has
  created, the \<^verbatim>\<open>Promise.all\<close> combinations, the timers, the sockets, the frames
  handed to \<^verbatim>\<open>send\<close>, the console. \<open>settle_calls\<close> is a record kept for the
  proofs: every call of the \<^verbatim>\<open>resolve\<close> or \<^verbatim>\<open>reject\<close> function of a
  pending request, by request id.

  \<open>requestId\<close> is a JavaScript number; \<^verbatim>\<open>++\<close> is exact on it up to
  \<open>2^53\<close>, and the model takes it as a natural number.
\<close>

record world =
  ws :: "nat option"
  requestId :: nat
  pendingRequests :: "(nat \<times> pending_entry) list"
  state :: WebSocketState
  options :: RequiredOptions
  reconnectTimer :: "nat option"
  promises :: "(nat \<times> promise_state) list"
  next_promise :: nat
  alls :: "(nat \<times> nat list) list"
  timers :: "(nat \<times> timer_task \<times> nat) list"
  next_timer :: nat
  sockets :: "(nat \<times> socket) list"
  next_socket :: nat
  sent :: "(nat \<times> frame) list"
  console :: "console_entry list"
  settle_calls :: "(nat \<times> promise_state) list"

definition constructor :: "ClientOptions \<Rightarrow> world" where
  "constructor opts =
     \<lparr> ws = None, requestId = 0, pendingRequests = [], state = disconnected,
       options = \<lparr> r_url = url opts,
                   r_reconnect = (case reconnect opts of None \<Rightarrow> True | Some b \<Rightarrow> b),
                   r_reconnectDelay = (case reconnectDelay opts of None \<Rightarrow> 3000 | Some d \<Rightarrow> d),
                   r_timeout = (case timeout opts of None \<Rightarrow> 30000 | Some t \<Rightarrow> t) \<rparr>,
       reconnectTimer = None,
       promises = [], next_promise = 0, alls = [], timers = [], next_timer = 1,
       sockets = [], next_socket = 0, sent = [], console = [], settle_calls = [] \<rparr>"

section \<open>Promises\<close>

definition new_promise :: "world \<Rightarrow> nat \<times> world" where
  "new_promise w =
     (next_promise w,
      w\<lparr>promises := AList.update (next_promise w) Pending (promises w),
        next_promise := Suc (next_promise w)\<rparr>)"

definition set_promise :: "nat \<Rightarrow> promise_state \<Rightarrow> world \<Rightarrow> world" where
  "set_promise p st w = w\<lparr>promises := AList.update p st (promises w)\<rparr>"

text \<open>
  \<^verbatim>\<open>Promise.all\<close>: the values of the elements in the order of the list, when
  every element is fulfilled.
\<close>

fun all_result :: "(nat \<times> promise_state) list \<Rightarrow> nat list \<Rightarrow> jsval list option" where
  "all_result ps [] = Some []"
| "all_result ps (e # es) =
     (case map_of ps e of
        Some (Fulfilled v) \<Rightarrow> map_option ((#) v) (all_result ps es)
      | _ \<Rightarrow> None)"

text \<open>
  The reactions of every \<^verbatim>\<open>Promise.all\<close> combination to the fulfilment or the
  rejection of the promise \<open>p\<close>: a pending combination that has \<open>p\<close> among its
  elements is fulfilled once all its elements are, and rejected with the reason of
  \<open>p\<close> at once.
\<close>

fun all_on_fulfil :: "nat \<Rightarrow> (nat \<times> nat list) list \<Rightarrow> world \<Rightarrow> world" where
  "all_on_fulfil p [] w = w"
| "all_on_fulfil p ((c, es) # cs) w =
     all_on_fulfil p cs
       (if p \<in> set es \<and> map_of (promises w) c = Some Pending
        then (case all_result (promises w) es of
                Some vs \<Rightarrow> set_promise c (Fulfilled (JArr vs)) w
              | None \<Rightarrow> w)
        else w)"

fun all_on_reject :: "nat \<Rightarrow> js_error \<Rightarrow> (nat \<times> nat list) list \<Rightarrow> world \<Rightarrow> world" where
  "all_on_reject p e [] w = w"
| "all_on_reject p e ((c, es) # cs) w =
     all_on_reject p e cs
       (if p \<in> set es \<and> map_of (promises w) c = Some Pending
        then set_promise c (Rejected e) w
        else w)"

text \<open>A promise settles once: settling a promise that is not pending does nothing.\<close>

definition resolve_promise :: "nat \<Rightarrow> jsval \<Rightarrow> world \<Rightarrow> world" where
  "resolve_promise p v w =
     (if map_of (promises w) p = Some Pending
      then all_on_fulfil p (alls w) (set_promise p (Fulfilled v) w)
      else w)"

definition reject_promise :: "nat \<Rightarrow> js_error \<Rightarrow> world \<Rightarrow> world" where
  "reject_promise p e w =
     (if map_of (promises w) p = Some Pending
      then all_on_reject p e (alls w) (set_promise p (Rejected e) w)
      else w)"

text \<open>
  \<^verbatim>\<open>Promise.all(promises)\<close> whose result is the promise \<open>c\<close>: rejected with
  the reason of the first rejected element, fulfilled when all elements are (at once
  for the empty list), pending otherwise.
\<close>

fun first_rejected :: "(nat \<times> promise_state) list \<Rightarrow> nat list \<Rightarrow> js_error option" where
  "first_rejected ps [] = None"
| "first_rejected ps (e # es) =
     (case map_of ps e of
        Some (Rejected r) \<Rightarrow> Some r
      | _ \<Rightarrow> first_rejected ps es)"

definition promise_all :: "nat \<Rightarrow> nat list \<Rightarrow> world \<Rightarrow> world" where
  "promise_all c es w =
     (let w1 = w\<lparr>alls := alls w @ [(c, es)]\<rparr>
      in case first_rejected (promises w1) es of
           Some r \<Rightarrow> reject_promise c r w1
         | None \<Rightarrow> (case all_result (promises w1) es of
                      Some vs \<Rightarrow> resolve_promise c (JArr vs) w1
                    | None \<Rightarrow> w1))"

section \<open>Timers, sockets, console\<close>

definition setTimeout :: "timer_task \<Rightarrow> nat \<Rightarrow> world \<Rightarrow> nat \<times> world" where
  "setTimeout task delay w =
     (next_timer w,
      w\<lparr>timers := AList.update (next_timer w) (task, delay) (timers w),
        next_timer := Suc (next_timer w)\<rparr>)"

definition clearTimeout :: "nat \<Rightarrow> world \<Rightarrow> world" where
  "clearTimeout t w = w\<lparr>timers := AList.delete t (timers w)\<rparr>"

definition console_warn :: "string \<Rightarrow> jsval \<Rightarrow> world \<Rightarrow> world" where
  "console_warn s v w = w\<lparr>console := console w @ [Warn s v]\<rparr>"

definition console_error :: "string \<Rightarrow> js_error \<Rightarrow> world \<Rightarrow> world" where
  "console_error s e w = w\<lparr>console := console w @ [ErrorLog s e]\<rparr>"

definition console_log :: "string \<Rightarrow> world \<Rightarrow> world" where
  "console_log s w = w\<lparr>console := console w @ [Log s]\<rparr>"

definition ready_state_of :: "world \<Rightarrow> nat \<Rightarrow> ready_state option" where
  "ready_state_of w s = map_option readyState (map_of (sockets w) s)"

definition set_ready_state :: "nat \<Rightarrow> ready_state \<Rightarrow> world \<Rightarrow> world" where
  "set_ready_state s r w =
     (case map_of (sockets w) s of
        None \<Rightarrow> w
      | Some sock \<Rightarrow> w\<lparr>sockets := AList.update s (sock\<lparr>readyState := r\<rparr>) (sockets w)\<rparr>)"

text \<open>
  \<^verbatim>\<open>ws.send(data)\<close> of the browser's \<^verbatim>\<open>WebSocket\<close>: an
  \<^verbatim>\<open>InvalidStateError\<close> while the socket is connecting, the frame goes out when
  it is open, and is dropped without an error when it is closing or closed.
\<close>

definition ws_send :: "nat \<Rightarrow> frame \<Rightarrow> world \<Rightarrow> js_error + world" where
  "ws_send s f w =
     (case ready_state_of w s of
        Some CONNECTING \<Rightarrow> Inl InvalidStateError
      | Some OPEN \<Rightarrow> Inr (w\<lparr>sent := sent w @ [(s, f)]\<rparr>)
      | _ \<Rightarrow> Inr w)"

text \<open>
  \<^verbatim>\<open>ws.close()\<close>: a connecting or open socket starts closing; its close event
  comes later, as an event of its own.
\<close>

definition ws_close :: "nat \<Rightarrow> world \<Rightarrow> world" where
  "ws_close s w =
     (case ready_state_of w s of
        Some CONNECTING \<Rightarrow> set_ready_state s CLOSING w
      | Some OPEN \<Rightarrow> set_ready_state s CLOSING w
      | _ \<Rightarrow> w)"

text \<open>\<^verbatim>\<open>!this.ws || this.ws.readyState !== WebSocket.OPEN\<close> is the negation of this.\<close>

definition ws_is_open :: "world \<Rightarrow> bool" where
  "ws_is_open w = (case ws w of None \<Rightarrow> False | Some s \<Rightarrow> ready_state_of w s = Some OPEN)"

section \<open>The pending requests\<close>

text \<open>
  The \<^verbatim>\<open>resolve\<close> and \<^verbatim>\<open>reject\<close> functions of a promise made in
  \<^verbatim>\<open>request\<close> or \<^verbatim>\<open>batch\<close> for the request \<open>i\<close>; the call is noted in
  \<open>settle_calls\<close>.
\<close>

definition call_resolve :: "nat \<Rightarrow> nat \<Rightarrow> jsval \<Rightarrow> world \<Rightarrow> world" where
  "call_resolve i p v w =
     resolve_promise p v (w\<lparr>settle_calls := settle_calls w @ [(i, Fulfilled v)]\<rparr>)"

definition call_reject :: "nat \<Rightarrow> nat \<Rightarrow> js_error \<Rightarrow> world \<Rightarrow> world" where
  "call_reject i p e w =
     reject_promise p e (w\<lparr>settle_calls := settle_calls w @ [(i, Rejected e)]\<rparr>)"

text \<open>\<^verbatim>\<open>pending.resolve(value)\<close> and \<^verbatim>\<open>pending.reject(error)\<close> of the entry stored under \<open>i\<close>.\<close>

fun pending_resolve :: "nat \<Rightarrow> pending_entry \<Rightarrow> jsval \<Rightarrow> world \<Rightarrow> world" where
  "pending_resolve i (FromRequest timeoutId p) v w = call_resolve i p v (clearTimeout timeoutId w)"
| "pending_resolve i (FromBatch p) v w = call_resolve i p v w"

fun pending_reject :: "nat \<Rightarrow> pending_entry \<Rightarrow> js_error \<Rightarrow> world \<Rightarrow> world" where
  "pending_reject i (FromRequest timeoutId p) e w = call_reject i p e (clearTimeout timeoutId w)"
| "pending_reject i (FromBatch p) e w = call_reject i p e w"

fun entry_promise :: "pending_entry \<Rightarrow> nat" where
  "entry_promise (FromRequest timeoutId p) = p"
| "entry_promise (FromBatch p) = p"

text \<open>
  \<^verbatim>\<open>pendingRequests.get(message.id)\<close>: the keys of the map are the numbers that
  \<^verbatim>\<open>request\<close> and \<^verbatim>\<open>batch\<close> have put in, so only a number finds an entry.
\<close>

fun map_key :: "jsval \<Rightarrow> nat option" where
  "map_key (JNum i) = (if 0 \<le> i then Some (nat i) else None)"
| "map_key v = None"

definition pending_get :: "world \<Rightarrow> jsval \<Rightarrow> (nat \<times> pending_entry) option" where
  "pending_get w v =
     (case map_key v of
        None \<Rightarrow> None
      | Some i \<Rightarrow> map_option (Pair i) (map_of (pendingRequests w) i))"

definition pending_delete :: "nat \<Rightarrow> world \<Rightarrow> world" where
  "pending_delete i w = w\<lparr>pendingRequests := AList.delete i (pendingRequests w)\<rparr>"

definition pending_set :: "nat \<Rightarrow> pending_entry \<Rightarrow> world \<Rightarrow> world" where
  "pending_set i e w = w\<lparr>pendingRequests := AList.update i e (pendingRequests w)\<rparr>"

section \<open>Receiving\<close>

text \<open>
  \<^verbatim>\<open>handleSingleMessage(message)\<close>. It returns (\<open>Inr\<close>) or throws (\<open>Inl\<close>),
  and the client is as the call has left it in both cases. The \<^verbatim>\<open>in\<close> of its first
  line throws when the message is not an object, before anything has changed. The
  template literal of the error text converts \<^verbatim>\<open>message.error.message\<close> and then
  \<^verbatim>\<open>message.error.code\<close> to strings; when a conversion throws, the entry is
  already deleted and \<^verbatim>\<open>pending.reject\<close> is not called.
\<close>

definition handleSingleMessage :: "jsval \<Rightarrow> world \<Rightarrow> js_error \<times> world + world" where
  "handleSingleMessage message w =
     (case js_in ''id'' message of
        Inl e \<Rightarrow> Inl (e, w)
      | Inr False \<Rightarrow> Inr w
      | Inr True \<Rightarrow>
          (case pending_get w (get_prop message ''id'') of
             None \<Rightarrow>
               Inr (console_warn ''Received response for unknown request:''
                      (get_prop message ''id'') w)
           | Some (i, pending) \<Rightarrow>
               (let w1 = pending_delete i w
                in if truthy (get_prop message ''error'')
                   then (case js_string (get_prop (get_prop message ''error'') ''message'') of
                           Inl e \<Rightarrow> Inl (e, w1)
                         | Inr m \<Rightarrow>
                             (case js_string (get_prop (get_prop message ''error'') ''code'') of
                                Inl e \<Rightarrow> Inl (e, w1)
                              | Inr c \<Rightarrow>
                                  Inr (pending_reject i pending
                                         (Error (m @ '' (code: '' @ c @ '')'')) w1)))
                   else Inr (pending_resolve i pending (get_prop message ''result'') w1))))"

text \<open>
  The client as \<^verbatim>\<open>handleSingleMessage\<close> leaves it, whether it returns or throws.
\<close>

fun outcome :: "js_error \<times> world + world \<Rightarrow> world" where
  "outcome (Inl (e, w)) = w"
| "outcome (Inr w) = w"

text \<open>
  The loop \<^verbatim>\<open>for (const item of message)\<close> of \<^verbatim>\<open>handleMessage\<close>: an
  exception leaves the loop, and what the items before it have done stays done.
\<close>

fun handle_items :: "jsval list \<Rightarrow> world \<Rightarrow> js_error option \<times> world" where
  "handle_items [] w = (None, w)"
| "handle_items (item # items) w =
     (case handleSingleMessage item w of
        Inl (e, w1) \<Rightarrow> (Some e, w1)
      | Inr w1 \<Rightarrow> handle_items items w1)"

text \<open>
  \<^verbatim>\<open>handleMessage(data)\<close>. The argument is what \<^verbatim>\<open>JSON.parse(data)\<close> gives:
  \<open>None\<close> when it throws its \<^verbatim>\<open>SyntaxError\<close>. The \<^verbatim>\<open>catch\<close> logs
  whatever was thrown inside the \<^verbatim>\<open>try\<close>.
\<close>

definition handleMessage :: "jsval option \<Rightarrow> world \<Rightarrow> world" where
  "handleMessage data w =
     (case data of
        None \<Rightarrow> console_error ''Failed to parse message:'' SyntaxError w
      | Some (JArr items) \<Rightarrow>
          (case handle_items items w of
             (None, w1) \<Rightarrow> w1
           | (Some e, w1) \<Rightarrow> console_error ''Failed to parse message:'' e w1)
      | Some message \<Rightarrow>
          (case handleSingleMessage message w of
             Inr w1 \<Rightarrow> w1
           | Inl (e, w1) \<Rightarrow> console_error ''Failed to parse message:'' e w1))"

section \<open>Sending\<close>

text \<open>
  The body of \<^verbatim>\<open>request(method, params)\<close> after its first \<^verbatim>\<open>if\<close>; \<open>p\<close>
  is the promise the call returns. An exception of \<^verbatim>\<open>this.ws!.send\<close> inside the
  executor of \<^verbatim>\<open>new Promise\<close> rejects the promise; the timer and the entry made
  before it stay.
\<close>

definition request_body :: "string \<Rightarrow> jsval \<Rightarrow> nat \<Rightarrow> world \<Rightarrow> world" where
  "request_body method params p w =
     (let i = Suc (requestId w);
          w1 = w\<lparr>requestId := i\<rparr>;
          (timeoutId, w2) = setTimeout (RequestTimeout i method p) (r_timeout (options w1)) w1;
          w3 = pending_set i (FromRequest timeoutId p) w2
      in case ws w3 of
           None \<Rightarrow> reject_promise p TypeError w3
         | Some s \<Rightarrow>
             (case ws_send s (Single \<lparr>req_method = method, req_params = params, req_id = i\<rparr>) w3 of
                Inl e \<Rightarrow> reject_promise p e w3
              | Inr w4 \<Rightarrow> w4))"

text \<open>The first \<^verbatim>\<open>requests.map\<close> of \<^verbatim>\<open>batch\<close>: one \<^verbatim>\<open>++this.requestId\<close> for each element.\<close>

fun assign_ids :: "(string \<times> jsval) list \<Rightarrow> nat \<Rightarrow> JrpcRequest list \<times> nat" where
  "assign_ids [] n = ([], n)"
| "assign_ids ((m, ps) # rs) n =
     (let (qs, n') = assign_ids rs (Suc n)
      in (\<lparr>req_method = m, req_params = ps, req_id = Suc n\<rparr> # qs, n'))"

text \<open>The second \<^verbatim>\<open>map\<close>: one promise and one entry for each element, and no timer.\<close>

fun register_all :: "JrpcRequest list \<Rightarrow> world \<Rightarrow> nat list \<times> world" where
  "register_all [] w = ([], w)"
| "register_all (r # rs) w =
     (let (p, w1) = new_promise w;
          w2 = pending_set (req_id r) (FromBatch p) w1;
          (ps, w3) = register_all rs w2
      in (p # ps, w3))"

text \<open>
  The body of \<^verbatim>\<open>batch(requests)\<close> after its first \<^verbatim>\<open>if\<close>; \<open>p\<close> is the
  promise the call returns, which is the one of \<^verbatim>\<open>Promise.all\<close> unless
  \<^verbatim>\<open>this.ws.send\<close> throws.
\<close>

definition batch_body :: "(string \<times> jsval) list \<Rightarrow> nat \<Rightarrow> world \<Rightarrow> world" where
  "batch_body requests p w =
     (let (batchRequests, n) = assign_ids requests (requestId w);
          w1 = w\<lparr>requestId := n\<rparr>;
          (elems, w2) = register_all batchRequests w1
      in case ws w2 of
           None \<Rightarrow> reject_promise p TypeError w2
         | Some s \<Rightarrow>
             (case ws_send s (Array batchRequests) w2 of
                Inl e \<Rightarrow> reject_promise p e w2
              | Inr w3 \<Rightarrow> promise_all p elems w3))"

text \<open>
  The code behind \<^verbatim>\<open>await this.connect()\<close>, run when the promise of
  \<^verbatim>\<open>connect()\<close> is fulfilled, and what happens when it is rejected with \<open>e\<close>.
\<close>

fun run_cont :: "continuation \<Rightarrow> world \<Rightarrow> world" where
  "run_cont ThenNothing w = w"
| "run_cont (ThenRequest method params p) w = request_body method params p w"
| "run_cont (ThenBatch requests p) w = batch_body requests p w"
| "run_cont CatchReconnect w = w"

fun fail_cont :: "continuation \<Rightarrow> js_error \<Rightarrow> world \<Rightarrow> world" where
  "fail_cont ThenNothing e w = w"
| "fail_cont (ThenRequest method params p) e w = reject_promise p e w"
| "fail_cont (ThenBatch requests p) e w = reject_promise p e w"
| "fail_cont CatchReconnect e w = console_error ''Reconnection failed:'' e w"

section \<open>Connection\<close>

text \<open>
  \<^verbatim>\<open>connect()\<close>; \<open>k\<close> is the code that awaits the promise it returns. With an
  open socket it returns at once. Otherwise it makes a new socket, whose handlers are
  \<open>ws_onopen\<close>, \<open>ws_onerror\<close>, \<open>handleMessage\<close> and \<open>ws_onclose\<close> below.
\<close>

definition connect :: "continuation \<Rightarrow> world \<Rightarrow> world" where
  "connect k w =
     (if ws_is_open w then run_cont k w
      else (let w1 = w\<lparr>state := connecting\<rparr>;
                s = next_socket w1
            in w1\<lparr>sockets := AList.update s
                     \<lparr>readyState = CONNECTING, opened = Pending, awaiter = k\<rparr> (sockets w1),
                   next_socket := Suc s,
                   ws := Some s\<rparr>))"

text \<open>\<^verbatim>\<open>resolve()\<close> and \<^verbatim>\<open>reject(error)\<close> of the promise of the socket \<open>s\<close>.\<close>

definition resolve_opened :: "nat \<Rightarrow> world \<Rightarrow> world" where
  "resolve_opened s w =
     (case map_of (sockets w) s of
        None \<Rightarrow> w
      | Some sock \<Rightarrow>
          if opened sock = Pending
          then run_cont (awaiter sock)
                 (w\<lparr>sockets := AList.update s (sock\<lparr>opened := Fulfilled Undefined\<rparr>) (sockets w)\<rparr>)
          else w)"

definition reject_opened :: "nat \<Rightarrow> js_error \<Rightarrow> world \<Rightarrow> world" where
  "reject_opened s e w =
     (case map_of (sockets w) s of
        None \<Rightarrow> w
      | Some sock \<Rightarrow>
          if opened sock = Pending
          then fail_cont (awaiter sock) e
                 (w\<lparr>sockets := AList.update s (sock\<lparr>opened := Rejected e\<rparr>) (sockets w)\<rparr>)
          else w)"

definition ws_onopen :: "nat \<Rightarrow> world \<Rightarrow> world" where
  "ws_onopen s w =
     (let w1 = w\<lparr>state := connected\<rparr>;
          w2 = (case reconnectTimer w1 of
                  Some t \<Rightarrow> (clearTimeout t w1)\<lparr>reconnectTimer := None\<rparr>
                | None \<Rightarrow> w1)
      in resolve_opened s w2)"

text \<open>The \<^verbatim>\<open>error\<close> of the template literal is an \<^verbatim>\<open>Event\<close> object.\<close>

definition ws_onerror :: "nat \<Rightarrow> world \<Rightarrow> world" where
  "ws_onerror s w =
     reject_opened s (Error ''WebSocket error: [object Event]'') (w\<lparr>state := error\<rparr>)"

definition handleDisconnect :: "world \<Rightarrow> world" where
  "handleDisconnect w =
     (if r_reconnect (options w) \<and> state w \<noteq> error
      then (let (t, w1) = setTimeout Reconnect (r_reconnectDelay (options w)) w
            in w1\<lparr>reconnectTimer := Some t\<rparr>)
      else w)"

definition ws_onclose :: "world \<Rightarrow> world" where
  "ws_onclose w = handleDisconnect (w\<lparr>state := disconnected\<rparr>)"

text \<open>The loop of \<^verbatim>\<open>disconnect\<close> over a copy of the values of \<^verbatim>\<open>pendingRequests\<close>.\<close>

fun reject_all :: "(nat \<times> pending_entry) list \<Rightarrow> world \<Rightarrow> world" where
  "reject_all [] w = w"
| "reject_all ((i, pending) # rest) w =
     reject_all rest (pending_reject i pending (Error ''Connection closed'') w)"

definition disconnect :: "world \<Rightarrow> world" where
  "disconnect w =
     (let w1 = (case reconnectTimer w of
                  Some t \<Rightarrow> (clearTimeout t w)\<lparr>reconnectTimer := None\<rparr>
                | None \<Rightarrow> w);
          w2 = (case ws w1 of
                  Some s \<Rightarrow> (ws_close s w1)\<lparr>ws := None\<rparr>
                | None \<Rightarrow> w1);
          w3 = w2\<lparr>state := disconnected\<rparr>;
          w4 = reject_all (pendingRequests w3) w3
      in w4\<lparr>pendingRequests := []\<rparr>)"

definition getState :: "world \<Rightarrow> WebSocketState" where
  "getState w = state w"

section \<open>The public calls\<close>

definition request :: "string \<Rightarrow> jsval \<Rightarrow> world \<Rightarrow> nat \<times> world" where
  "request method params w =
     (let (p, w1) = new_promise w
      in (p, if \<not> ws_is_open w1 then connect (ThenRequest method params p) w1
             else request_body method params p w1))"

definition batch :: "(string \<times> jsval) list \<Rightarrow> world \<Rightarrow> nat \<times> world" where
  "batch requests w =
     (let (p, w1) = new_promise w
      in (p, if \<not> ws_is_open w1 then connect (ThenBatch requests p) w1
             else batch_body requests p w1))"

text \<open>
  \<^verbatim>\<open>SetupClient.subscribe(topic)\<close>; \<open>Undefined\<close> is the argument left out.
\<close>

definition SetupClient_subscribe :: "jsval \<Rightarrow> world \<Rightarrow> nat \<times> world" where
  "SetupClient_subscribe topic w = request ''setup_subscribe'' (JObj [(''topic'', topic)]) w"

section \<open>Events\<close>

text \<open>
  The callback of a timer that is still set runs and the timer is spent.
\<close>

definition timer_fire :: "nat \<Rightarrow> world \<Rightarrow> world" where
  "timer_fire t w =
     (case map_of (timers w) t of
        None \<Rightarrow> w
      | Some (task, delay) \<Rightarrow>
          (let w1 = clearTimeout t w
           in case task of
                RequestTimeout i method p \<Rightarrow>
                  call_reject i p (Error (''Request timeout: '' @ method)) (pending_delete i w1)
              | Reconnect \<Rightarrow>
                  connect CatchReconnect (console_log ''Attempting to reconnect...'' w1)))"

text \<open>
  What the browser does to a socket: the open event of a connecting socket, a message
  on an open one, the close event of a socket that is not closed yet, and the failure
  of a connection, which is an error event followed by the close event. The code
  awaiting the promise of \<^verbatim>\<open>connect()\<close> runs as soon as the handler that settles
  it returns.
\<close>

definition open_event :: "nat \<Rightarrow> world \<Rightarrow> world" where
  "open_event s w =
     (if ready_state_of w s = Some CONNECTING
      then ws_onopen s (set_ready_state s OPEN w)
      else w)"

definition message_event :: "nat \<Rightarrow> jsval option \<Rightarrow> world \<Rightarrow> world" where
  "message_event s data w =
     (if ready_state_of w s = Some OPEN then handleMessage data w else w)"

definition not_closed :: "world \<Rightarrow> nat \<Rightarrow> bool" where
  "not_closed w s =
     (case ready_state_of w s of None \<Rightarrow> False | Some CLOSED \<Rightarrow> False | Some r \<Rightarrow> True)"

definition close_event :: "nat \<Rightarrow> world \<Rightarrow> world" where
  "close_event s w =
     (if not_closed w s then ws_onclose (set_ready_state s CLOSED w) else w)"

definition error_event :: "nat \<Rightarrow> world \<Rightarrow> world" where
  "error_event s w =
     (if not_closed w s then ws_onclose (ws_onerror s (set_ready_state s CLOSED w)) else w)"

datatype event =
    CallConnect
  | CallDisconnect
  | CallRequest string jsval
  | CallBatch "(string \<times> jsval) list"
  | SocketOpen nat
  | SocketMessage nat "jsval option"
  | SocketClose nat
  | SocketError nat
  | TimerFire nat

fun step :: "event \<Rightarrow> world \<Rightarrow> world" where
  "step CallConnect w = connect ThenNothing w"
| "step CallDisconnect w = disconnect w"
| "step (CallRequest method params) w = snd (request method params w)"
| "step (CallBatch requests) w = snd (batch requests w)"
| "step (SocketOpen s) w = open_event s w"
| "step (SocketMessage s data) w = message_event s data w"
| "step (SocketClose s) w = close_event s w"
| "step (SocketError s) w = error_event s w"
| "step (TimerFire t) w = timer_fire t w"

text \<open>The client after a history of events, the first event first.\<close>

fun run :: "event list \<Rightarrow> world \<Rightarrow> world" where
  "run [] w = w"
| "run (ev # evs) w = run evs (step ev w)"

section \<open>A client with the default options\<close>

definition default_options :: ClientOptions where
  "default_options =
     \<lparr>url = ''ws://192.168.64.100/ws'', reconnect = None, reconnectDelay = None, timeout = None\<rparr>"

text \<open>
  A client that has connected and then sent \<^verbatim>\<open>request('api_ping', {})\<close>,
  \<^verbatim>\<open>request('api_version', {})\<close> and a batch of one \<^verbatim>\<open>setup_get\<close>, with no
  response so far.
\<close>

definition three_outstanding :: world where
  "three_outstanding =
     run [CallConnect, SocketOpen 0,
          CallRequest ''api_ping'' (JObj []),
          CallRequest ''api_version'' (JObj []),
          CallBatch [(''setup_get'', JObj [(''path'', JStr ''/audio/output/speaker/1'')])]]
       (constructor default_options)"

section \<open>Invariants\<close>

text \<open>
  What holds of the request ids after every history: the keys of
  \<^verbatim>\<open>pendingRequests\<close> are in strictly increasing order and none exceeds
  \<open>requestId\<close>; no request id has had its \<^verbatim>\<open>resolve\<close> or \<^verbatim>\<open>reject\<close>
  called twice, and none of those called is still a key; a timer of a request that is
  still set is the only timer of that request, whose id has been assigned and whose
  \<^verbatim>\<open>resolve\<close> and \<^verbatim>\<open>reject\<close> have not been called, and the entry of the
  request, when it is still there, is the one that clears this timer.
\<close>

definition ids_ok :: "world \<Rightarrow> bool" where
  "ids_ok w \<longleftrightarrow>
     sorted_wrt (<) (map fst (pendingRequests w)) \<and>
     (\<forall>i \<in> fst ` set (pendingRequests w). i \<le> requestId w) \<and>
     distinct (map fst (settle_calls w)) \<and>
     (\<forall>i \<in> fst ` set (settle_calls w). i \<le> requestId w \<and> i \<notin> fst ` set (pendingRequests w)) \<and>
     (\<forall>(t, task, d) \<in> set (timers w). \<forall>i m p.
        task = RequestTimeout i m p \<longrightarrow>
          i \<le> requestId w \<and> i \<notin> fst ` set (settle_calls w) \<and>
          (\<forall>e. (i, e) \<in> set (pendingRequests w) \<longrightarrow> e = FromRequest t p) \<and>
          (\<forall>t' m' p' d'. (t', RequestTimeout i m' p', d') \<in> set (timers w) \<longrightarrow> t' = t))"

text \<open>
  What \<^verbatim>\<open>Promise.all\<close> promises of a combination \<open>(c, es)\<close>: while \<open>c\<close> is
  pending no element is rejected and not all are fulfilled; when \<open>c\<close> is fulfilled, all
  elements are, and its value is the array of their values in the order of \<open>es\<close>; when
  \<open>c\<close> is rejected, an element is rejected with the same reason.
\<close>

definition fan_in_ok :: "(nat \<times> promise_state) list \<Rightarrow> nat \<Rightarrow> nat list \<Rightarrow> bool" where
  "fan_in_ok ps c es =
     (case map_of ps c of
        None \<Rightarrow> False
      | Some Pending \<Rightarrow> first_rejected ps es = None \<and> all_result ps es = None
      | Some (Fulfilled v) \<Rightarrow> map_option JArr (all_result ps es) = Some v
      | Some (Rejected e) \<Rightarrow> Some (Rejected e) \<in> set (map (map_of ps) es))"

text \<open>
  Who refers to a promise: the entries of \<^verbatim>\<open>pendingRequests\<close>, the timers of
  requests, the \<^verbatim>\<open>Promise.all\<close> combinations with their results and their
  elements, and the code that awaits a connection.
\<close>

definition entry_promises :: "world \<Rightarrow> nat set" where
  "entry_promises w = entry_promise ` snd ` set (pendingRequests w)"

definition timer_promises :: "world \<Rightarrow> nat set" where
  "timer_promises w = {p. \<exists>t i m d. (t, RequestTimeout i m p, d) \<in> set (timers w)}"

definition combined :: "world \<Rightarrow> nat set" where
  "combined w = fst ` set (alls w)"

definition elements :: "world \<Rightarrow> nat set" where
  "elements w = \<Union> (set ` snd ` set (alls w))"

definition owned :: "world \<Rightarrow> nat set" where
  "owned w = combined w \<union> elements w \<union> entry_promises w \<union> timer_promises w"

fun cont_promise :: "continuation \<Rightarrow> nat option" where
  "cont_promise (ThenRequest m ps p) = Some p"
| "cont_promise (ThenBatch rs p) = Some p"
| "cont_promise k = None"

definition awaited :: "world \<Rightarrow> nat \<Rightarrow> nat option" where
  "awaited w s =
     (case map_of (sockets w) s of
        None \<Rightarrow> None
      | Some sock \<Rightarrow> if opened sock = Pending then cont_promise (awaiter sock) else None)"

text \<open>A promise that exists, is pending, and that nobody refers to.\<close>

definition unowned :: "world \<Rightarrow> nat \<Rightarrow> bool" where
  "unowned w p \<longleftrightarrow>
     p < next_promise w \<and> map_of (promises w) p = Some Pending \<and> p \<notin> owned w \<and>
     (\<forall>s. awaited w s \<noteq> Some p)"

text \<open>
  What holds of the promises after every history: every combination is as
  \<^verbatim>\<open>Promise.all\<close> promises; the result of a combination is the result of no other
  and is neither an element nor the promise of an entry or of a timer; the promises
  referred to have been created; and a promise of a call that awaits a connection is
  pending, awaited by that call alone, and referred to by nobody else.
\<close>

definition promises_ok :: "world \<Rightarrow> bool" where
  "promises_ok w \<longleftrightarrow>
     (\<forall>(c, es) \<in> set (alls w). fan_in_ok (promises w) c es) \<and>
     distinct (map fst (alls w)) \<and>
     combined w \<inter> (elements w \<union> entry_promises w \<union> timer_promises w) = {} \<and>
     (\<forall>p \<in> owned w. p < next_promise w) \<and>
     (\<forall>s p. awaited w s = Some p \<longrightarrow>
        p < next_promise w \<and> map_of (promises w) p = Some Pending \<and> p \<notin> owned w \<and>
        (\<forall>s'. awaited w s' = Some p \<longrightarrow> s' = s))"

section \<open>Evaluation\<close>

lemma digits_less [simp]: "n < 10 \<Longrightarrow> digits n = [''0123456789'' ! n]"
  by (simp add: digits.simps)

lemma digits_ge [simp]: "10 \<le> n \<Longrightarrow> digits n = digits (n div 10) @ [''0123456789'' ! (n mod 10)]"
  by (subst digits.simps) simp

subsection \<open>What settling a promise changes\<close>

lemma set_promise_fields [simp]:
  "ws (set_promise p st w) = ws w"
  "requestId (set_promise p st w) = requestId w"
  "pendingRequests (set_promise p st w) = pendingRequests w"
  "state (set_promise p st w) = state w"
  "options (set_promise p st w) = options w"
  "reconnectTimer (set_promise p st w) = reconnectTimer w"
  "next_promise (set_promise p st w) = next_promise w"
  "alls (set_promise p st w) = alls w"
  "timers (set_promise p st w) = timers w"
  "next_timer (set_promise p st w) = next_timer w"
  "sockets (set_promise p st w) = sockets w"
  "next_socket (set_promise p st w) = next_socket w"
  "sent (set_promise p st w) = sent w"
  "console (set_promise p st w) = console w"
  "settle_calls (set_promise p st w) = settle_calls w"
  "map_of (promises (set_promise p st w)) q = (if q = p then Some st else map_of (promises w) q)"
  by (simp_all add: set_promise_def update_conv')

lemma all_on_fulfil_fields [simp]:
  "ws (all_on_fulfil p cs w) = ws w"
  "requestId (all_on_fulfil p cs w) = requestId w"
  "pendingRequests (all_on_fulfil p cs w) = pendingRequests w"
  "state (all_on_fulfil p cs w) = state w"
  "options (all_on_fulfil p cs w) = options w"
  "reconnectTimer (all_on_fulfil p cs w) = reconnectTimer w"
  "next_promise (all_on_fulfil p cs w) = next_promise w"
  "alls (all_on_fulfil p cs w) = alls w"
  "timers (all_on_fulfil p cs w) = timers w"
  "next_timer (all_on_fulfil p cs w) = next_timer w"
  "sockets (all_on_fulfil p cs w) = sockets w"
  "next_socket (all_on_fulfil p cs w) = next_socket w"
  "sent (all_on_fulfil p cs w) = sent w"
  "console (all_on_fulfil p cs w) = console w"
  "settle_calls (all_on_fulfil p cs w) = settle_calls w"
  by (induction p cs w rule: all_on_fulfil.induct; simp split: option.split)+

lemma all_on_reject_fields [simp]:
  "ws (all_on_reject p e cs w) = ws w"
  "requestId (all_on_reject p e cs w) = requestId w"
  "pendingRequests (all_on_reject p e cs w) = pendingRequests w"
  "state (all_on_reject p e cs w) = state w"
  "options (all_on_reject p e cs w) = options w"
  "reconnectTimer (all_on_reject p e cs w) = reconnectTimer w"
  "next_promise (all_on_reject p e cs w) = next_promise w"
  "alls (all_on_reject p e cs w) = alls w"
  "timers (all_on_reject p e cs w) = timers w"
  "next_timer (all_on_reject p e cs w) = next_timer w"
  "sockets (all_on_reject p e cs w) = sockets w"
  "next_socket (all_on_reject p e cs w) = next_socket w"
  "sent (all_on_reject p e cs w) = sent w"
  "console (all_on_reject p e cs w) = console w"
  "settle_calls (all_on_reject p e cs w) = settle_calls w"
  by (induction p e cs w rule: all_on_reject.induct; simp)+

lemma resolve_promise_fields [simp]:
  "ws (resolve_promise p v w) = ws w"
  "requestId (resolve_promise p v w) = requestId w"
  "pendingRequests (resolve_promise p v w) = pendingRequests w"
  "state (resolve_promise p v w) = state w"
  "options (resolve_promise p v w) = options w"
  "reconnectTimer (resolve_promise p v w) = reconnectTimer w"
  "next_promise (resolve_promise p v w) = next_promise w"
  "alls (resolve_promise p v w) = alls w"
  "timers (resolve_promise p v w) = timers w"
  "next_timer (resolve_promise p v w) = next_timer w"
  "sockets (resolve_promise p v w) = sockets w"
  "next_socket (resolve_promise p v w) = next_socket w"
  "sent (resolve_promise p v w) = sent w"
  "console (resolve_promise p v w) = console w"
  "settle_calls (resolve_promise p v w) = settle_calls w"
  by (simp_all add: resolve_promise_def)

lemma reject_promise_fields [simp]:
  "ws (reject_promise p e w) = ws w"
  "requestId (reject_promise p e w) = requestId w"
  "pendingRequests (reject_promise p e w) = pendingRequests w"
  "state (reject_promise p e w) = state w"
  "options (reject_promise p e w) = options w"
  "reconnectTimer (reject_promise p e w) = reconnectTimer w"
  "next_promise (reject_promise p e w) = next_promise w"
  "alls (reject_promise p e w) = alls w"
  "timers (reject_promise p e w) = timers w"
  "next_timer (reject_promise p e w) = next_timer w"
  "sockets (reject_promise p e w) = sockets w"
  "next_socket (reject_promise p e w) = next_socket w"
  "sent (reject_promise p e w) = sent w"
  "console (reject_promise p e w) = console w"
  "settle_calls (reject_promise p e w) = settle_calls w"
  by (simp_all add: reject_promise_def)

text \<open>A settled promise keeps its state.\<close>

lemma all_on_fulfil_settled:
  "map_of (promises w) q = Some st \<Longrightarrow> st \<noteq> Pending \<Longrightarrow>
   map_of (promises (all_on_fulfil p cs w)) q = Some st"
proof (induction p cs w rule: all_on_fulfil.induct)
  case (1 p w)
  then show ?case by simp
next
  case (2 p c es cs w)
  have "q \<noteq> c" if "map_of (promises w) c = Some Pending"
    using that 2(2,3) by auto
  with 2 show ?case
    by (auto split: option.split)
qed

lemma all_on_reject_settled:
  "map_of (promises w) q = Some st \<Longrightarrow> st \<noteq> Pending \<Longrightarrow>
   map_of (promises (all_on_reject p e cs w)) q = Some st"
proof (induction p e cs w rule: all_on_reject.induct)
  case (1 p e w)
  then show ?case by simp
next
  case (2 p e c es cs w)
  have "q \<noteq> c" if "map_of (promises w) c = Some Pending"
    using that 2(2,3) by auto
  with 2 show ?case
    by auto
qed

lemma all_on_reject_pending:
  "map_of (promises w) q = Some Pending \<Longrightarrow>
   map_of (promises (all_on_reject p e cs w)) q = Some Pending \<or>
   map_of (promises (all_on_reject p e cs w)) q = Some (Rejected e)"
proof (induction p e cs w rule: all_on_reject.induct)
  case (1 p e w)
  then show ?case by simp
next
  case (2 p e c es cs w)
  show ?case
  proof (cases "p \<in> set es \<and> map_of (promises w) c = Some Pending")
    case True
    show ?thesis
    proof (cases "q = c")
      case True
      with \<open>p \<in> set es \<and> map_of (promises w) c = Some Pending\<close> show ?thesis
        by (simp add: all_on_reject_settled)
    next
      case False
      with 2 True show ?thesis by simp
    qed
  next
    case False
    with 2 show ?thesis by auto
  qed
qed

lemma resolve_promise_settled:
  "map_of (promises w) q = Some st \<Longrightarrow> st \<noteq> Pending \<Longrightarrow>
   map_of (promises (resolve_promise p v w)) q = Some st"
  by (auto simp: resolve_promise_def intro!: all_on_fulfil_settled)

lemma reject_promise_settled:
  "map_of (promises w) q = Some st \<Longrightarrow> st \<noteq> Pending \<Longrightarrow>
   map_of (promises (reject_promise p e w)) q = Some st"
  by (auto simp: reject_promise_def intro!: all_on_reject_settled)

lemma resolve_promise_pending:
  "map_of (promises w) p = Some Pending \<Longrightarrow>
   map_of (promises (resolve_promise p v w)) p = Some (Fulfilled v)"
  by (simp add: resolve_promise_def all_on_fulfil_settled)

lemma reject_promise_pending:
  "map_of (promises w) p = Some Pending \<Longrightarrow>
   map_of (promises (reject_promise p e w)) p = Some (Rejected e)"
  by (simp add: reject_promise_def all_on_reject_settled)

lemma reject_promise_other:
  "map_of (promises w) q = Some Pending \<Longrightarrow>
   map_of (promises (reject_promise p e w)) q = Some Pending \<or>
   map_of (promises (reject_promise p e w)) q = Some (Rejected e)"
  by (cases "q = p") (auto simp: reject_promise_def all_on_reject_settled intro!: all_on_reject_pending)

subsection \<open>Rejecting a pending entry\<close>

lemma clearTimeout_fields [simp]:
  "ws (clearTimeout t w) = ws w"
  "requestId (clearTimeout t w) = requestId w"
  "pendingRequests (clearTimeout t w) = pendingRequests w"
  "state (clearTimeout t w) = state w"
  "options (clearTimeout t w) = options w"
  "reconnectTimer (clearTimeout t w) = reconnectTimer w"
  "promises (clearTimeout t w) = promises w"
  "next_promise (clearTimeout t w) = next_promise w"
  "alls (clearTimeout t w) = alls w"
  "timers (clearTimeout t w) = AList.delete t (timers w)"
  "next_timer (clearTimeout t w) = next_timer w"
  "sockets (clearTimeout t w) = sockets w"
  "next_socket (clearTimeout t w) = next_socket w"
  "sent (clearTimeout t w) = sent w"
  "console (clearTimeout t w) = console w"
  "settle_calls (clearTimeout t w) = settle_calls w"
  by (simp_all add: clearTimeout_def)

lemma call_reject_fields [simp]:
  "ws (call_reject i p e w) = ws w"
  "requestId (call_reject i p e w) = requestId w"
  "pendingRequests (call_reject i p e w) = pendingRequests w"
  "state (call_reject i p e w) = state w"
  "options (call_reject i p e w) = options w"
  "reconnectTimer (call_reject i p e w) = reconnectTimer w"
  "next_promise (call_reject i p e w) = next_promise w"
  "alls (call_reject i p e w) = alls w"
  "timers (call_reject i p e w) = timers w"
  "next_timer (call_reject i p e w) = next_timer w"
  "sockets (call_reject i p e w) = sockets w"
  "next_socket (call_reject i p e w) = next_socket w"
  "sent (call_reject i p e w) = sent w"
  "console (call_reject i p e w) = console w"
  "settle_calls (call_reject i p e w) = settle_calls w @ [(i, Rejected e)]"
  by (simp_all add: call_reject_def)

lemma call_resolve_fields [simp]:
  "ws (call_resolve i p v w) = ws w"
  "requestId (call_resolve i p v w) = requestId w"
  "pendingRequests (call_resolve i p v w) = pendingRequests w"
  "state (call_resolve i p v w) = state w"
  "options (call_resolve i p v w) = options w"
  "reconnectTimer (call_resolve i p v w) = reconnectTimer w"
  "next_promise (call_resolve i p v w) = next_promise w"
  "alls (call_resolve i p v w) = alls w"
  "timers (call_resolve i p v w) = timers w"
  "next_timer (call_resolve i p v w) = next_timer w"
  "sockets (call_resolve i p v w) = sockets w"
  "next_socket (call_resolve i p v w) = next_socket w"
  "sent (call_resolve i p v w) = sent w"
  "console (call_resolve i p v w) = console w"
  "settle_calls (call_resolve i p v w) = settle_calls w @ [(i, Fulfilled v)]"
  by (simp_all add: call_resolve_def)

lemma pending_reject_fields [simp]:
  "ws (pending_reject i pending e w) = ws w"
  "requestId (pending_reject i pending e w) = requestId w"
  "pendingRequests (pending_reject i pending e w) = pendingRequests w"
  "state (pending_reject i pending e w) = state w"
  "options (pending_reject i pending e w) = options w"
  "reconnectTimer (pending_reject i pending e w) = reconnectTimer w"
  "next_promise (pending_reject i pending e w) = next_promise w"
  "alls (pending_reject i pending e w) = alls w"
  "next_timer (pending_reject i pending e w) = next_timer w"
  "sockets (pending_reject i pending e w) = sockets w"
  "next_socket (pending_reject i pending e w) = next_socket w"
  "sent (pending_reject i pending e w) = sent w"
  "console (pending_reject i pending e w) = console w"
  "settle_calls (pending_reject i pending e w) = settle_calls w @ [(i, Rejected e)]"
  by (cases pending; simp)+

lemma pending_resolve_fields [simp]:
  "ws (pending_resolve i pending v w) = ws w"
  "requestId (pending_resolve i pending v w) = requestId w"
  "pendingRequests (pending_resolve i pending v w) = pendingRequests w"
  "state (pending_resolve i pending v w) = state w"
  "options (pending_resolve i pending v w) = options w"
  "reconnectTimer (pending_resolve i pending v w) = reconnectTimer w"
  "next_promise (pending_resolve i pending v w) = next_promise w"
  "alls (pending_resolve i pending v w) = alls w"
  "next_timer (pending_resolve i pending v w) = next_timer w"
  "sockets (pending_resolve i pending v w) = sockets w"
  "next_socket (pending_resolve i pending v w) = next_socket w"
  "sent (pending_resolve i pending v w) = sent w"
  "console (pending_resolve i pending v w) = console w"
  "settle_calls (pending_resolve i pending v w) = settle_calls w @ [(i, Fulfilled v)]"
  by (cases pending; simp)+

text \<open>The promises after a settlement depend on the promises and the combinations only.\<close>

lemma all_on_reject_promises_cong:
  "promises w = promises w' \<Longrightarrow>
   promises (all_on_reject p e cs w) = promises (all_on_reject p e cs w')"
proof (induction cs arbitrary: w w')
  case Nil
  then show ?case by simp
next
  case (Cons a cs)
  obtain c es where a: "a = (c, es)" by (cases a)
  show ?case
    unfolding a all_on_reject.simps
    by (rule Cons.IH) (simp add: Cons.prems set_promise_def)
qed

lemma all_on_fulfil_promises_cong:
  "promises w = promises w' \<Longrightarrow>
   promises (all_on_fulfil p cs w) = promises (all_on_fulfil p cs w')"
proof (induction cs arbitrary: w w')
  case Nil
  then show ?case by simp
next
  case (Cons a cs)
  obtain c es where a: "a = (c, es)" by (cases a)
  show ?case
    unfolding a all_on_fulfil.simps
    by (rule Cons.IH) (simp add: Cons.prems set_promise_def split: option.split)
qed

lemma reject_promise_promises_cong:
  assumes "promises w = promises w'" and "alls w = alls w'"
  shows "promises (reject_promise p e w) = promises (reject_promise p e w')"
proof -
  have "promises (all_on_reject p e (alls w') (set_promise p (Rejected e) w)) =
        promises (all_on_reject p e (alls w') (set_promise p (Rejected e) w'))"
    by (rule all_on_reject_promises_cong) (simp add: assms set_promise_def)
  then show ?thesis
    by (simp add: reject_promise_def assms)
qed

lemma resolve_promise_promises_cong:
  assumes "promises w = promises w'" and "alls w = alls w'"
  shows "promises (resolve_promise p v w) = promises (resolve_promise p v w')"
proof -
  have "promises (all_on_fulfil p (alls w') (set_promise p (Fulfilled v) w)) =
        promises (all_on_fulfil p (alls w') (set_promise p (Fulfilled v) w'))"
    by (rule all_on_fulfil_promises_cong) (simp add: assms set_promise_def)
  then show ?thesis
    by (simp add: resolve_promise_def assms)
qed

lemma pending_reject_promises:
  "promises (pending_reject i pending e w) = promises (reject_promise (entry_promise pending) e w)"
proof (cases pending)
  case (FromRequest t p)
  show ?thesis
    unfolding FromRequest pending_reject.simps entry_promise.simps call_reject_def
    by (rule reject_promise_promises_cong) simp_all
next
  case (FromBatch p)
  show ?thesis
    unfolding FromBatch pending_reject.simps entry_promise.simps call_reject_def
    by (rule reject_promise_promises_cong) simp_all
qed

lemma pending_resolve_promises:
  "promises (pending_resolve i pending v w) = promises (resolve_promise (entry_promise pending) v w)"
proof (cases pending)
  case (FromRequest t p)
  show ?thesis
    unfolding FromRequest pending_resolve.simps entry_promise.simps call_resolve_def
    by (rule resolve_promise_promises_cong) simp_all
next
  case (FromBatch p)
  show ?thesis
    unfolding FromBatch pending_resolve.simps entry_promise.simps call_resolve_def
    by (rule resolve_promise_promises_cong) simp_all
qed

subsection \<open>The loop of disconnect\<close>

lemma reject_all_fields [simp]:
  "ws (reject_all es w) = ws w"
  "requestId (reject_all es w) = requestId w"
  "pendingRequests (reject_all es w) = pendingRequests w"
  "state (reject_all es w) = state w"
  "options (reject_all es w) = options w"
  "reconnectTimer (reject_all es w) = reconnectTimer w"
  "next_promise (reject_all es w) = next_promise w"
  "alls (reject_all es w) = alls w"
  "next_timer (reject_all es w) = next_timer w"
  "sockets (reject_all es w) = sockets w"
  "next_socket (reject_all es w) = next_socket w"
  "sent (reject_all es w) = sent w"
  "console (reject_all es w) = console w"
  by (induction es w rule: reject_all.induct; simp)+

lemma reject_all_settle_calls:
  "settle_calls (reject_all es w) =
   settle_calls w @ map (\<lambda>(i, pending). (i, Rejected (Error ''Connection closed''))) es"
  by (induction es w rule: reject_all.induct) simp_all

lemma pending_reject_settled:
  "map_of (promises w) q = Some st \<Longrightarrow> st \<noteq> Pending \<Longrightarrow>
   map_of (promises (pending_reject i pending e w)) q = Some st"
  by (simp add: pending_reject_promises reject_promise_settled)

lemma reject_all_settled:
  "map_of (promises w) q = Some st \<Longrightarrow> st \<noteq> Pending \<Longrightarrow>
   map_of (promises (reject_all es w)) q = Some st"
  by (induction es w rule: reject_all.induct) (simp_all add: pending_reject_settled)

lemma reject_all_rejects:
  "(i, pending) \<in> set es \<Longrightarrow>
   map_of (promises w) (entry_promise pending) = Some Pending \<or>
   map_of (promises w) (entry_promise pending) = Some (Rejected (Error ''Connection closed'')) \<Longrightarrow>
   map_of (promises (reject_all es w)) (entry_promise pending) =
     Some (Rejected (Error ''Connection closed''))"
proof (induction es w rule: reject_all.induct)
  case (1 w)
  then show ?case by simp
next
  case (2 j e rest w)
  let ?w = "pending_reject j e (Error ''Connection closed'') w"
  let ?q = "entry_promise pending"
  show ?case
  proof (cases "map_of (promises w) ?q = Some Pending")
    case False
    with 2(3) have "map_of (promises w) ?q = Some (Rejected (Error ''Connection closed''))"
      by simp
    then show ?thesis
      by (simp add: reject_all_settled pending_reject_settled)
  next
    case True
    show ?thesis
    proof (cases "entry_promise e = ?q")
      case True
      with \<open>map_of (promises w) ?q = Some Pending\<close>
      have "map_of (promises ?w) ?q = Some (Rejected (Error ''Connection closed''))"
        by (simp add: pending_reject_promises reject_promise_pending)
      then show ?thesis
        by (simp add: reject_all_settled)
    next
      case False
      from True have now: "map_of (promises ?w) ?q = Some Pending \<or>
          map_of (promises ?w) ?q = Some (Rejected (Error ''Connection closed''))"
        by (simp add: pending_reject_promises reject_promise_other)
      from False 2(2) have "(i, pending) \<in> set rest" by auto
      from 2(1) [OF this now] show ?thesis by simp
    qed
  qed
qed

text \<open>
  C7. \<^verbatim>\<open>disconnect()\<close> leaves \<^verbatim>\<open>pendingRequests\<close> empty, calls the
  \<^verbatim>\<open>reject\<close> of every entry that was in it with the error
  \<^verbatim>\<open>Connection closed\<close>, once and in the order of the map, and every promise of
  an entry that was still pending is rejected with that error afterwards.
\<close>

theorem disconnect_rejects_all_pending:
  "pendingRequests (disconnect w) = [] \<and>
   settle_calls (disconnect w) =
     settle_calls w @
     map (\<lambda>(i, pending). (i, Rejected (Error ''Connection closed''))) (pendingRequests w) \<and>
   (\<forall>(i, pending) \<in> set (pendingRequests w).
      map_of (promises w) (entry_promise pending) = Some Pending \<longrightarrow>
      map_of (promises (disconnect w)) (entry_promise pending) =
        Some (Rejected (Error ''Connection closed'')))"
proof -
  define w3 where "w3 =
    (let w1 = (case reconnectTimer w of
                  Some t \<Rightarrow> (clearTimeout t w)\<lparr>reconnectTimer := None\<rparr>
                | None \<Rightarrow> w);
          w2 = (case ws w1 of
                  Some s \<Rightarrow> (ws_close s w1)\<lparr>ws := None\<rparr>
                | None \<Rightarrow> w1)
     in w2\<lparr>state := disconnected\<rparr>)"
  have d: "disconnect w = (reject_all (pendingRequests w3) w3)\<lparr>pendingRequests := []\<rparr>"
    by (simp add: disconnect_def w3_def Let_def)
  have same: "pendingRequests w3 = pendingRequests w" "promises w3 = promises w"
    "settle_calls w3 = settle_calls w"
    by (simp_all add: w3_def Let_def ws_close_def set_ready_state_def
          split: option.split ready_state.split)
  have "map_of (promises (reject_all (pendingRequests w) w3)) (entry_promise pending) =
        Some (Rejected (Error ''Connection closed''))"
    if "(i, pending) \<in> set (pendingRequests w)"
      and "map_of (promises w) (entry_promise pending) = Some Pending" for i pending
    using that by (intro reject_all_rejects) (simp_all add: same)
  then show ?thesis
    by (auto simp: d same reject_all_settle_calls)
qed

lemmas world_defs =
  constructor_def new_promise_def set_promise_def resolve_promise_def reject_promise_def
  promise_all_def setTimeout_def clearTimeout_def console_warn_def console_error_def
  console_log_def ready_state_of_def set_ready_state_def ws_send_def ws_close_def
  ws_is_open_def call_resolve_def call_reject_def pending_get_def pending_delete_def
  pending_set_def handleSingleMessage_def handleMessage_def request_body_def batch_body_def
  connect_def resolve_opened_def reject_opened_def ws_onopen_def ws_onerror_def
  handleDisconnect_def ws_onclose_def disconnect_def request_def batch_def
  SetupClient_subscribe_def timer_fire_def open_event_def message_event_def not_closed_def
  close_event_def error_event_def number_string_def safe_integer_def default_options_def


lemma three_outstanding_eq:
  "three_outstanding =
   \<lparr>ws = Some 0, requestId = 3,
    pendingRequests = [(1, FromRequest 1 0), (2, FromRequest 2 1), (3, FromBatch 3)],
    state = connected,
    options = \<lparr>r_url = ''ws://192.168.64.100/ws'', r_reconnect = True,
                r_reconnectDelay = 3000, r_timeout = 30000\<rparr>,
    reconnectTimer = None,
    promises = [(0, Pending), (1, Pending), (2, Pending), (3, Pending)],
    next_promise = 4, alls = [(2, [3])],
    timers = [(1, RequestTimeout 1 ''api_ping'' 0, 30000),
              (2, RequestTimeout 2 ''api_version'' 1, 30000)],
    next_timer = 3,
    sockets = [(0, \<lparr>readyState = OPEN, opened = Fulfilled Undefined, awaiter = ThenNothing\<rparr>)],
    next_socket = 1,
    sent = [(0, Single \<lparr>req_method = ''api_ping'', req_params = JObj [], req_id = 1\<rparr>),
            (0, Single \<lparr>req_method = ''api_version'', req_params = JObj [], req_id = 2\<rparr>),
            (0, Array [\<lparr>req_method = ''setup_get'',
                         req_params = JObj [(''path'', JStr ''/audio/output/speaker/1'')],
                         req_id = 3\<rparr>])],
    console = [], settle_calls = []\<rparr>"
  by (simp add: three_outstanding_def world_defs)

theorem disconnect_rejects_all_pending_witness:
  "pendingRequests three_outstanding = [(1, FromRequest 1 0), (2, FromRequest 2 1), (3, FromBatch 3)] \<and>
   map_of (promises three_outstanding) 0 = Some Pending \<and>
   map_of (promises three_outstanding) 1 = Some Pending \<and>
   map_of (promises three_outstanding) 3 = Some Pending \<and>
   pendingRequests (disconnect three_outstanding) = [] \<and>
   map_of (promises (disconnect three_outstanding)) 0 = Some (Rejected (Error ''Connection closed'')) \<and>
   map_of (promises (disconnect three_outstanding)) 1 = Some (Rejected (Error ''Connection closed'')) \<and>
   map_of (promises (disconnect three_outstanding)) 3 = Some (Rejected (Error ''Connection closed''))"
  using disconnect_rejects_all_pending [of three_outstanding]
  by (simp add: three_outstanding_eq)

subsection \<open>Responses\<close>

lemma pending_delete_fields [simp]:
  "ws (pending_delete i w) = ws w"
  "requestId (pending_delete i w) = requestId w"
  "pendingRequests (pending_delete i w) = AList.delete i (pendingRequests w)"
  "state (pending_delete i w) = state w"
  "options (pending_delete i w) = options w"
  "reconnectTimer (pending_delete i w) = reconnectTimer w"
  "promises (pending_delete i w) = promises w"
  "next_promise (pending_delete i w) = next_promise w"
  "alls (pending_delete i w) = alls w"
  "timers (pending_delete i w) = timers w"
  "next_timer (pending_delete i w) = next_timer w"
  "sockets (pending_delete i w) = sockets w"
  "next_socket (pending_delete i w) = next_socket w"
  "sent (pending_delete i w) = sent w"
  "console (pending_delete i w) = console w"
  "settle_calls (pending_delete i w) = settle_calls w"
  by (simp_all add: pending_delete_def)

text \<open>
  C9. A message that is an object without an \<^verbatim>\<open>id\<close> leaves the client and the
  runtime as they are, whatever else it carries: \<^verbatim>\<open>pendingRequests\<close> keeps every
  entry and no promise is settled.
\<close>

theorem notification_changes_nothing:
  assumes "map_of kv ''id'' = None"
  shows "handleSingleMessage (JObj kv) w = Inr w \<and> handleMessage (Some (JObj kv)) w = w"
  using assms by (simp add: handleSingleMessage_def handleMessage_def)

theorem notification_changes_nothing_witness:
  "map_of [(''jsonrpc'', JStr ''2.0''), (''method'', JStr ''setup_update''),
           (''params'', JObj [(''path'', JStr ''/x''), (''value'', JNum 1)])] ''id'' = None \<and>
   pendingRequests three_outstanding \<noteq> [] \<and>
   handleMessage
     (Some (JObj [(''jsonrpc'', JStr ''2.0''), (''method'', JStr ''setup_update''),
                  (''params'', JObj [(''path'', JStr ''/x''), (''value'', JNum 1)])]))
     three_outstanding = three_outstanding"
  using notification_changes_nothing
    [of "[(''jsonrpc'', JStr ''2.0''), (''method'', JStr ''setup_update''),
          (''params'', JObj [(''path'', JStr ''/x''), (''value'', JNum 1)])]" three_outstanding]
  by (simp add: three_outstanding_eq)

text \<open>
  C10, as stated, fails in its second half: the promise is resolved with the
  \<^verbatim>\<open>result\<close> field not only when the \<^verbatim>\<open>error\<close> field is absent. The
  condition \<^verbatim>\<open>if (message.error)\<close> reads the field for its truthiness. A client
  with the default options sends \<^verbatim>\<open>request('api_ping', {})\<close>; the response with
  id 1 carries \<^verbatim>\<open>result: 'pong'\<close> and \<^verbatim>\<open>error: null\<close>. The
  \<^verbatim>\<open>error\<close> field is present, and the promise is fulfilled with \<^verbatim>\<open>'pong'\<close>.
\<close>

theorem null_error_field_resolves_with_result:
  "map_of [(''jsonrpc'', JStr ''2.0''), (''id'', JNum 1), (''result'', JStr ''pong''),
           (''error'', JNull)] ''error'' = Some JNull \<and>
   pendingRequests (run [CallRequest ''api_ping'' (JObj []), SocketOpen 0]
                      (constructor default_options)) = [(1, FromRequest 1 0)] \<and>
   promises (run [CallRequest ''api_ping'' (JObj []), SocketOpen 0]
               (constructor default_options)) = [(0, Pending)] \<and>
   pendingRequests (run [CallRequest ''api_ping'' (JObj []), SocketOpen 0,
        SocketMessage 0 (Some (JObj [(''jsonrpc'', JStr ''2.0''), (''id'', JNum 1),
                                      (''result'', JStr ''pong''), (''error'', JNull)]))]
      (constructor default_options)) = [] \<and>
   promises (run [CallRequest ''api_ping'' (JObj []), SocketOpen 0,
        SocketMessage 0 (Some (JObj [(''jsonrpc'', JStr ''2.0''), (''id'', JNum 1),
                                      (''result'', JStr ''pong''), (''error'', JNull)]))]
      (constructor default_options)) = [(0, Fulfilled (JStr ''pong''))] \<and>
   settle_calls (run [CallRequest ''api_ping'' (JObj []), SocketOpen 0,
        SocketMessage 0 (Some (JObj [(''jsonrpc'', JStr ''2.0''), (''id'', JNum 1),
                                      (''result'', JStr ''pong''), (''error'', JNull)]))]
      (constructor default_options)) = [(1, Fulfilled (JStr ''pong''))]"
  by (simp add: world_defs)

text \<open>
  C10, amended. A response whose \<^verbatim>\<open>id\<close> finds an entry with a pending promise
  takes the entry out of \<^verbatim>\<open>pendingRequests\<close>, and then the \<^verbatim>\<open>error\<close> field
  decides, whatever \<^verbatim>\<open>result\<close> is:

    \<^item> an error object whose \<^verbatim>\<open>message\<close> is a string and whose \<^verbatim>\<open>code\<close> is a
      safe integer rejects the promise with \<^verbatim>\<open>`${error.message} (code: ${error.code})`\<close>;

    \<^item> so does every truthy \<^verbatim>\<open>error\<close> field, with the strings that the template
      literal makes of its \<^verbatim>\<open>message\<close> and \<^verbatim>\<open>code\<close>, when it can make them;

    \<^item> when the conversion of \<^verbatim>\<open>message\<close> or \<^verbatim>\<open>code\<close> to a string throws,
      \<^verbatim>\<open>handleSingleMessage\<close> throws after the entry is deleted: \<^verbatim>\<open>reject\<close> is
      not called and the promise stays pending;

    \<^item> an \<^verbatim>\<open>error\<close> field that is absent or falsy (\<^verbatim>\<open>null\<close>, \<^verbatim>\<open>false\<close>,
      \<^verbatim>\<open>0\<close>, the empty string) fulfils the promise with the \<^verbatim>\<open>result\<close> field,
      which is \<^verbatim>\<open>undefined\<close> when there is no \<^verbatim>\<open>result\<close> field.
\<close>

theorem truthy_error_field_rejects_else_result_resolves:
  assumes "map_of kv ''id'' = Some (JNum (int i))"
    and "map_of (pendingRequests w) i = Some pending"
    and "map_of (promises w) (entry_promise pending) = Some Pending"
  shows "(\<forall>e m c. map_of kv ''error'' = Some (JObj e) \<and> map_of e ''message'' = Some (JStr m) \<and>
                  map_of e ''code'' = Some (JNum c) \<and> safe_integer c \<longrightarrow>
            (\<exists>w'. handleSingleMessage (JObj kv) w = Inr w' \<and>
               map_of (pendingRequests w') i = None \<and>
               map_of (promises w') (entry_promise pending) =
                 Some (Rejected (Error (m @ '' (code: '' @ number_string c @ '')''))))) \<and>
         (\<forall>m c. truthy (get_prop (JObj kv) ''error'') \<and>
                js_string (get_prop (get_prop (JObj kv) ''error'') ''message'') = Inr m \<and>
                js_string (get_prop (get_prop (JObj kv) ''error'') ''code'') = Inr c \<longrightarrow>
            (\<exists>w'. handleSingleMessage (JObj kv) w = Inr w' \<and>
               map_of (pendingRequests w') i = None \<and>
               map_of (promises w') (entry_promise pending) =
                 Some (Rejected (Error (m @ '' (code: '' @ c @ '')''))))) \<and>
         (\<forall>x. truthy (get_prop (JObj kv) ''error'') \<and>
              (js_string (get_prop (get_prop (JObj kv) ''error'') ''message'') = Inl x \<or>
               (\<exists>m. js_string (get_prop (get_prop (JObj kv) ''error'') ''message'') = Inr m) \<and>
               js_string (get_prop (get_prop (JObj kv) ''error'') ''code'') = Inl x) \<longrightarrow>
            handleSingleMessage (JObj kv) w = Inl (x, pending_delete i w) \<and>
            map_of (pendingRequests (pending_delete i w)) i = None \<and>
            map_of (promises (pending_delete i w)) (entry_promise pending) = Some Pending \<and>
            settle_calls (pending_delete i w) = settle_calls w) \<and>
         (\<not> truthy (get_prop (JObj kv) ''error'') \<longrightarrow>
            (\<exists>w'. handleSingleMessage (JObj kv) w = Inr w' \<and>
               map_of (pendingRequests w') i = None \<and>
               map_of (promises w') (entry_promise pending) =
                 Some (Fulfilled (get_prop (JObj kv) ''result''))))"
proof -
  have get: "pending_get w (get_prop (JObj kv) ''id'') = Some (i, pending)"
    using assms(1,2) by (simp add: pending_get_def)
  have p: "map_of (promises (pending_delete i w)) (entry_promise pending) = Some Pending"
    using assms(3) by simp
  have gone: "map_of (pendingRequests (pending_delete i w)) i = None"
    by (simp add: pending_delete_def delete_conv')
  have rej: "\<exists>w'. handleSingleMessage (JObj kv) w = Inr w' \<and>
               map_of (pendingRequests w') i = None \<and>
               map_of (promises w') (entry_promise pending) =
                 Some (Rejected (Error (m @ '' (code: '' @ c @ '')'')))"
    if "truthy (get_prop (JObj kv) ''error'')"
      and "js_string (get_prop (get_prop (JObj kv) ''error'') ''message'') = Inr m"
      and "js_string (get_prop (get_prop (JObj kv) ''error'') ''code'') = Inr c" for m c
    using that assms(1) get gone
    by (simp add: handleSingleMessage_def pending_reject_promises reject_promise_pending [OF p])
  have typed: "\<exists>w'. handleSingleMessage (JObj kv) w = Inr w' \<and>
               map_of (pendingRequests w') i = None \<and>
               map_of (promises w') (entry_promise pending) =
                 Some (Rejected (Error (m @ '' (code: '' @ number_string c @ '')'')))"
    if "map_of kv ''error'' = Some (JObj e)" "map_of e ''message'' = Some (JStr m)"
      "map_of e ''code'' = Some (JNum c)" for e m c
    using that by (intro rej) simp_all
  have thrown: "handleSingleMessage (JObj kv) w = Inl (x, pending_delete i w)"
    if "truthy (get_prop (JObj kv) ''error'')"
      and "js_string (get_prop (get_prop (JObj kv) ''error'') ''message'') = Inl x \<or>
           (\<exists>m. js_string (get_prop (get_prop (JObj kv) ''error'') ''message'') = Inr m) \<and>
           js_string (get_prop (get_prop (JObj kv) ''error'') ''code'') = Inl x" for x
    using that assms(1) get
    by (auto simp: handleSingleMessage_def)
  have res: "\<exists>w'. handleSingleMessage (JObj kv) w = Inr w' \<and>
               map_of (pendingRequests w') i = None \<and>
               map_of (promises w') (entry_promise pending) =
                 Some (Fulfilled (get_prop (JObj kv) ''result''))"
    if "\<not> truthy (get_prop (JObj kv) ''error'')"
    using that assms(1) get gone
    by (simp add: handleSingleMessage_def pending_resolve_promises resolve_promise_pending [OF p])
  have A: "\<forall>e m c. map_of kv ''error'' = Some (JObj e) \<and> map_of e ''message'' = Some (JStr m) \<and>
                  map_of e ''code'' = Some (JNum c) \<and> safe_integer c \<longrightarrow>
            (\<exists>w'. handleSingleMessage (JObj kv) w = Inr w' \<and>
               map_of (pendingRequests w') i = None \<and>
               map_of (promises w') (entry_promise pending) =
                 Some (Rejected (Error (m @ '' (code: '' @ number_string c @ '')''))))"
    using typed by blast
  have B: "\<forall>m c. truthy (get_prop (JObj kv) ''error'') \<and>
                js_string (get_prop (get_prop (JObj kv) ''error'') ''message'') = Inr m \<and>
                js_string (get_prop (get_prop (JObj kv) ''error'') ''code'') = Inr c \<longrightarrow>
            (\<exists>w'. handleSingleMessage (JObj kv) w = Inr w' \<and>
               map_of (pendingRequests w') i = None \<and>
               map_of (promises w') (entry_promise pending) =
                 Some (Rejected (Error (m @ '' (code: '' @ c @ '')''))))"
    using rej by blast
  have C: "\<forall>x. truthy (get_prop (JObj kv) ''error'') \<and>
              (js_string (get_prop (get_prop (JObj kv) ''error'') ''message'') = Inl x \<or>
               (\<exists>m. js_string (get_prop (get_prop (JObj kv) ''error'') ''message'') = Inr m) \<and>
               js_string (get_prop (get_prop (JObj kv) ''error'') ''code'') = Inl x) \<longrightarrow>
            handleSingleMessage (JObj kv) w = Inl (x, pending_delete i w) \<and>
            map_of (pendingRequests (pending_delete i w)) i = None \<and>
            map_of (promises (pending_delete i w)) (entry_promise pending) = Some Pending \<and>
            settle_calls (pending_delete i w) = settle_calls w"
  proof (intro allI impI)
    fix x
    assume a: "truthy (get_prop (JObj kv) ''error'') \<and>
              (js_string (get_prop (get_prop (JObj kv) ''error'') ''message'') = Inl x \<or>
               (\<exists>m. js_string (get_prop (get_prop (JObj kv) ''error'') ''message'') = Inr m) \<and>
               js_string (get_prop (get_prop (JObj kv) ''error'') ''code'') = Inl x)"
    have "handleSingleMessage (JObj kv) w = Inl (x, pending_delete i w)"
      by (rule thrown) (use a in blast)+
    with p gone show "handleSingleMessage (JObj kv) w = Inl (x, pending_delete i w) \<and>
            map_of (pendingRequests (pending_delete i w)) i = None \<and>
            map_of (promises (pending_delete i w)) (entry_promise pending) = Some Pending \<and>
            settle_calls (pending_delete i w) = settle_calls w"
      by simp
  qed
  from A B C res show ?thesis
    by (intro conjI impI) blast+
qed

theorem truthy_error_field_rejects_else_result_resolves_witness:
  "map_of (pendingRequests three_outstanding) 1 = Some (FromRequest 1 0) \<and>
   map_of (promises three_outstanding) 0 = Some Pending \<and>
   safe_integer (- 32602) \<and>
   (\<exists>w'. handleSingleMessage
            (JObj [(''jsonrpc'', JStr ''2.0''), (''id'', JNum 1), (''result'', JStr ''pong''),
                   (''error'', JObj [(''code'', JNum (- 32602)), (''message'', JStr ''Invalid params'')])])
            three_outstanding = Inr w' \<and>
          map_of (pendingRequests w') 1 = None \<and>
          map_of (promises w') 0 = Some (Rejected (Error ''Invalid params (code: -32602)''))) \<and>
   map_of (pendingRequests three_outstanding) 2 = Some (FromRequest 2 1) \<and>
   map_of (promises three_outstanding) 1 = Some Pending \<and>
   handleSingleMessage
     (JObj [(''jsonrpc'', JStr ''2.0''), (''id'', JNum 2),
            (''error'', JObj [(''code'', JNum 1),
                              (''message'', JObj [(''toString'', JNum 1)])])])
     three_outstanding = Inl (TypeError, pending_delete 2 three_outstanding) \<and>
   map_of (pendingRequests (pending_delete 2 three_outstanding)) 2 = None \<and>
   map_of (promises (pending_delete 2 three_outstanding)) 1 = Some Pending \<and>
   map_of (pendingRequests three_outstanding) 3 = Some (FromBatch 3) \<and>
   map_of (promises three_outstanding) 3 = Some Pending \<and>
   (\<exists>w'. handleSingleMessage (JObj [(''jsonrpc'', JStr ''2.0''), (''id'', JNum 3)])
            three_outstanding = Inr w' \<and>
          map_of (pendingRequests w') 3 = None \<and>
          map_of (promises w') 3 = Some (Fulfilled Undefined)) \<and>
   (\<exists>w'. handleSingleMessage
            (JObj [(''jsonrpc'', JStr ''2.0''), (''id'', JNum 3), (''result'', JStr ''ok''),
                   (''error'', JNum 0)])
            three_outstanding = Inr w' \<and>
          map_of (pendingRequests w') 3 = None \<and>
          map_of (promises w') 3 = Some (Fulfilled (JStr ''ok'')))"
  using truthy_error_field_rejects_else_result_resolves
    [of "[(''jsonrpc'', JStr ''2.0''), (''id'', JNum 1), (''result'', JStr ''pong''),
          (''error'', JObj [(''code'', JNum (- 32602)), (''message'', JStr ''Invalid params'')])]"
        1 three_outstanding "FromRequest 1 0"]
    truthy_error_field_rejects_else_result_resolves
    [of "[(''jsonrpc'', JStr ''2.0''), (''id'', JNum 2),
          (''error'', JObj [(''code'', JNum 1), (''message'', JObj [(''toString'', JNum 1)])])]"
        2 three_outstanding "FromRequest 2 1"]
    truthy_error_field_rejects_else_result_resolves
    [of "[(''jsonrpc'', JStr ''2.0''), (''id'', JNum 3)]" 3 three_outstanding "FromBatch 3"]
    truthy_error_field_rejects_else_result_resolves
    [of "[(''jsonrpc'', JStr ''2.0''), (''id'', JNum 3), (''result'', JStr ''ok''),
          (''error'', JNum 0)]" 3 three_outstanding "FromBatch 3"]
  by (simp add: three_outstanding_eq number_string_def safe_integer_def pending_delete_def)

text \<open>
  C1. A client with the default options sends \<^verbatim>\<open>request('api_ping', {})\<close>, which
  connects first; the socket opens, the request goes out with id 1, and the socket
  closes before any message has come. The close handler leaves the entry in
  \<^verbatim>\<open>pendingRequests\<close> and the promise pending, calls no \<^verbatim>\<open>reject\<close>, and only
  sets the reconnection timer. The promise is settled when the timer of the request
  fires, with the error \<^verbatim>\<open>Request timeout: api_ping\<close>.
\<close>

theorem close_leaves_request_pending:
  "pendingRequests (run [CallRequest ''api_ping'' (JObj []), SocketOpen 0, SocketClose 0]
                      (constructor default_options)) = [(1, FromRequest 1 0)] \<and>
   promises (run [CallRequest ''api_ping'' (JObj []), SocketOpen 0, SocketClose 0]
               (constructor default_options)) = [(0, Pending)] \<and>
   settle_calls (run [CallRequest ''api_ping'' (JObj []), SocketOpen 0, SocketClose 0]
                   (constructor default_options)) = [] \<and>
   timers (run [CallRequest ''api_ping'' (JObj []), SocketOpen 0, SocketClose 0]
             (constructor default_options)) =
     [(1, RequestTimeout 1 ''api_ping'' 0, 30000), (2, Reconnect, 3000)] \<and>
   promises (run [CallRequest ''api_ping'' (JObj []), SocketOpen 0, SocketClose 0, TimerFire 1]
               (constructor default_options)) =
     [(0, Rejected (Error ''Request timeout: api_ping''))]"
  by (simp add: world_defs)

text \<open>
  C4. A connected client with the default options sends a batch of one request. No
  timer is set for its entry: the only thing that can settle it is a response or
  \<^verbatim>\<open>disconnect()\<close>, and without them the entry stays in \<^verbatim>\<open>pendingRequests\<close>
  and the promises stay pending, whichever timer handle is fired.
\<close>

theorem batch_entry_has_no_timeout:
  "pendingRequests (run [CallConnect, SocketOpen 0,
       CallBatch [(''setup_get'', JObj [(''path'', JStr ''/audio/output/speaker/1'')])]]
     (constructor default_options)) = [(1, FromBatch 1)] \<and>
   timers (run [CallConnect, SocketOpen 0,
       CallBatch [(''setup_get'', JObj [(''path'', JStr ''/audio/output/speaker/1'')])]]
     (constructor default_options)) = [] \<and>
   promises (run [CallConnect, SocketOpen 0,
       CallBatch [(''setup_get'', JObj [(''path'', JStr ''/audio/output/speaker/1'')])]]
     (constructor default_options)) = [(0, Pending), (1, Pending)] \<and>
   run [CallConnect, SocketOpen 0,
       CallBatch [(''setup_get'', JObj [(''path'', JStr ''/audio/output/speaker/1'')])],
       TimerFire t]
     (constructor default_options) =
   run [CallConnect, SocketOpen 0,
       CallBatch [(''setup_get'', JObj [(''path'', JStr ''/audio/output/speaker/1'')])]]
     (constructor default_options)"
  by (simp add: world_defs)

text \<open>
  C5. A client with the default options connects and calls \<^verbatim>\<open>disconnect()\<close>,
  which closes the socket. After the call no timer is set. The close event of that
  socket then runs the close handler, which sets the reconnection timer, and when the
  timer fires the client connects again with a new socket.
\<close>

theorem disconnect_is_followed_by_reconnect:
  "state (run [CallConnect, SocketOpen 0, CallDisconnect] (constructor default_options))
     = disconnected \<and>
   timers (run [CallConnect, SocketOpen 0, CallDisconnect] (constructor default_options)) = [] \<and>
   sockets (run [CallConnect, SocketOpen 0, CallDisconnect] (constructor default_options)) =
     [(0, \<lparr>readyState = CLOSING, opened = Fulfilled Undefined, awaiter = ThenNothing\<rparr>)] \<and>
   timers (run [CallConnect, SocketOpen 0, CallDisconnect, SocketClose 0]
             (constructor default_options)) = [(1, Reconnect, 3000)] \<and>
   reconnectTimer (run [CallConnect, SocketOpen 0, CallDisconnect, SocketClose 0]
             (constructor default_options)) = Some 1 \<and>
   state (run [CallConnect, SocketOpen 0, CallDisconnect, SocketClose 0, TimerFire 1]
             (constructor default_options)) = connecting \<and>
   ws (run [CallConnect, SocketOpen 0, CallDisconnect, SocketClose 0, TimerFire 1]
             (constructor default_options)) = Some 1 \<and>
   sockets (run [CallConnect, SocketOpen 0, CallDisconnect, SocketClose 0, TimerFire 1]
             (constructor default_options)) =
     [(0, \<lparr>readyState = CLOSED, opened = Fulfilled Undefined, awaiter = ThenNothing\<rparr>),
      (1, \<lparr>readyState = CONNECTING, opened = Pending, awaiter = CatchReconnect\<rparr>)]"
  by (simp add: world_defs)


lemma new_promise_fields [simp]:
  "ws (snd (new_promise w)) = ws w"
  "requestId (snd (new_promise w)) = requestId w"
  "pendingRequests (snd (new_promise w)) = pendingRequests w"
  "state (snd (new_promise w)) = state w"
  "options (snd (new_promise w)) = options w"
  "reconnectTimer (snd (new_promise w)) = reconnectTimer w"
  "promises (snd (new_promise w)) = AList.update (next_promise w) Pending (promises w)"
  "next_promise (snd (new_promise w)) = Suc (next_promise w)"
  "alls (snd (new_promise w)) = alls w"
  "timers (snd (new_promise w)) = timers w"
  "next_timer (snd (new_promise w)) = next_timer w"
  "sockets (snd (new_promise w)) = sockets w"
  "next_socket (snd (new_promise w)) = next_socket w"
  "sent (snd (new_promise w)) = sent w"
  "console (snd (new_promise w)) = console w"
  "settle_calls (snd (new_promise w)) = settle_calls w"
  "fst (new_promise w) = next_promise w"
  by (simp_all add: new_promise_def)

lemma pending_get_int:
  "map_of (pendingRequests w) i = Some e \<Longrightarrow> pending_get w (JNum (int i)) = Some (i, e)"
  by (simp add: pending_get_def)

text \<open>
  C3, as stated, fails: a connected client calls
  \<^verbatim>\<open>subscribe('setup_update')\<close> of the \<^verbatim>\<open>SetupClient\<close>, the response carries
  \<^verbatim>\<open>{subscription_id: 'abc'}\<close> and fulfils the promise of the call. The
  notification \<^verbatim>\<open>setup_update\<close> that comes next changes nothing: no function is
  called, nothing is logged, the client is as it was.
\<close>

theorem notification_after_subscribe_invokes_nothing:
  "fst (SetupClient_subscribe (JStr ''setup_update'')
          (run [CallConnect, SocketOpen 0] (constructor default_options))) = 0 \<and>
   promises (message_event 0
      (Some (JObj [(''jsonrpc'', JStr ''2.0''), (''id'', JNum 1),
                   (''result'', JObj [(''subscription_id'', JStr ''abc'')])]))
      (snd (SetupClient_subscribe (JStr ''setup_update'')
              (run [CallConnect, SocketOpen 0] (constructor default_options))))) =
     [(0, Fulfilled (JObj [(''subscription_id'', JStr ''abc'')]))] \<and>
   message_event 0
      (Some (JObj [(''jsonrpc'', JStr ''2.0''), (''method'', JStr ''setup_update''),
                   (''params'', JObj [(''path'', JStr ''/x''), (''value'', JNum 1)])]))
      (message_event 0
         (Some (JObj [(''jsonrpc'', JStr ''2.0''), (''id'', JNum 1),
                      (''result'', JObj [(''subscription_id'', JStr ''abc'')])]))
         (snd (SetupClient_subscribe (JStr ''setup_update'')
                 (run [CallConnect, SocketOpen 0] (constructor default_options))))) =
    message_event 0
         (Some (JObj [(''jsonrpc'', JStr ''2.0''), (''id'', JNum 1),
                      (''result'', JObj [(''subscription_id'', JStr ''abc'')])]))
         (snd (SetupClient_subscribe (JStr ''setup_update'')
                 (run [CallConnect, SocketOpen 0] (constructor default_options))))"
  by (simp add: world_defs)

text \<open>
  C3, amended. With an open socket \<^verbatim>\<open>subscribe(topic)\<close> sends the request
  \<^verbatim>\<open>setup_subscribe\<close> with the parameters \<^verbatim>\<open>{topic}\<close> under the next id and
  returns a promise, which a response with that id and a result fulfils with the
  result. It registers no callback. A message without an \<^verbatim>\<open>id\<close> that comes
  afterwards leaves the client and the runtime as they are.
\<close>

theorem subscribe_is_a_request_and_notifications_are_dropped:
  assumes "ws w = Some s" and "ready_state_of w s = Some OPEN"
    and "SetupClient_subscribe topic w = (p, w1)"
    and "map_of response ''id'' = Some (JNum (int (Suc (requestId w))))"
    and "map_of response ''error'' = None"
    and "map_of response ''result'' = Some r"
    and "w2 = handleMessage (Some (JObj response)) w1"
    and "map_of notification ''id'' = None"
  shows "sent w1 = sent w @ [(s, Single \<lparr>req_method = ''setup_subscribe'',
                                         req_params = JObj [(''topic'', topic)],
                                         req_id = Suc (requestId w)\<rparr>)] \<and>
         map_of (promises w1) p = Some Pending \<and>
         map_of (promises w2) p = Some (Fulfilled r) \<and>
         handleMessage (Some (JObj notification)) w2 = w2"
proof -
  let ?i = "Suc (requestId w)"
  have p: "p = next_promise w"
    using assms(3) by (simp add: SetupClient_subscribe_def request_def new_promise_def Let_def)
  have w1: "w1 = request_body ''setup_subscribe'' (JObj [(''topic'', topic)]) p (snd (new_promise w))"
    using assms(1,2,3)
    by (auto simp: SetupClient_subscribe_def request_def ws_is_open_def ready_state_of_def
          new_promise_def Let_def)
  from assms(2) obtain sock where sock: "map_of (sockets w) s = Some sock" "readyState sock = OPEN"
    by (auto simp: ready_state_of_def)
  have sent1: "sent w1 = sent w @ [(s, Single \<lparr>req_method = ''setup_subscribe'',
                                         req_params = JObj [(''topic'', topic)],
                                         req_id = ?i\<rparr>)]"
    and pend1: "map_of (pendingRequests w1) ?i = Some (FromRequest (next_timer w) p)"
    and prom1: "map_of (promises w1) p = Some Pending"
    using assms(1) sock
    by (simp_all add: w1 p request_body_def setTimeout_def pending_set_def ws_send_def
          ready_state_of_def new_promise_def Let_def update_conv')
  have get: "pending_get w1 (get_prop (JObj response) ''id'') = Some (?i, FromRequest (next_timer w) p)"
    using pend1 by (simp add: assms(4) pending_get_int del: of_nat_Suc)
  have "w2 = pending_resolve ?i (FromRequest (next_timer w) p) r (pending_delete ?i w1)"
    using assms(4,5,6) get
    by (simp add: assms(7) handleMessage_def handleSingleMessage_def
          del: pending_resolve.simps of_nat_Suc)
  then have "promises w2 = promises (resolve_promise p r (pending_delete ?i w1))"
    by (simp only: pending_resolve_promises entry_promise.simps)
  moreover have "map_of (promises (pending_delete ?i w1)) p = Some Pending"
    using prom1 by simp
  ultimately have "map_of (promises w2) p = Some (Fulfilled r)"
    by (simp add: resolve_promise_pending)
  moreover have "handleMessage (Some (JObj notification)) w2 = w2"
    using assms(8) by (simp add: handleMessage_def handleSingleMessage_def)
  ultimately show ?thesis
    using sent1 prom1 by simp
qed

theorem subscribe_is_a_request_and_notifications_are_dropped_witness:
  "ws (run [CallConnect, SocketOpen 0] (constructor default_options)) = Some 0 \<and>
   ready_state_of (run [CallConnect, SocketOpen 0] (constructor default_options)) 0 = Some OPEN \<and>
   fst (SetupClient_subscribe (JStr ''setup_update'')
          (run [CallConnect, SocketOpen 0] (constructor default_options))) = 0 \<and>
   sent (snd (SetupClient_subscribe (JStr ''setup_update'')
          (run [CallConnect, SocketOpen 0] (constructor default_options)))) =
     [(0, Single \<lparr>req_method = ''setup_subscribe'',
                    req_params = JObj [(''topic'', JStr ''setup_update'')], req_id = 1\<rparr>)] \<and>
   map_of (promises
      (handleMessage
         (Some (JObj [(''jsonrpc'', JStr ''2.0''), (''id'', JNum 1),
                      (''result'', JObj [(''subscription_id'', JStr ''abc'')])]))
         (snd (SetupClient_subscribe (JStr ''setup_update'')
                 (run [CallConnect, SocketOpen 0] (constructor default_options)))))) 0 =
     Some (Fulfilled (JObj [(''subscription_id'', JStr ''abc'')])) \<and>
   handleMessage
     (Some (JObj [(''jsonrpc'', JStr ''2.0''), (''method'', JStr ''setup_update''),
                  (''params'', JObj [(''path'', JStr ''/x''), (''value'', JNum 1)])]))
     (handleMessage
         (Some (JObj [(''jsonrpc'', JStr ''2.0''), (''id'', JNum 1),
                      (''result'', JObj [(''subscription_id'', JStr ''abc'')])]))
         (snd (SetupClient_subscribe (JStr ''setup_update'')
                 (run [CallConnect, SocketOpen 0] (constructor default_options))))) =
     handleMessage
         (Some (JObj [(''jsonrpc'', JStr ''2.0''), (''id'', JNum 1),
                      (''result'', JObj [(''subscription_id'', JStr ''abc'')])]))
         (snd (SetupClient_subscribe (JStr ''setup_update'')
                 (run [CallConnect, SocketOpen 0] (constructor default_options))))"
proof -
  let ?w = "run [CallConnect, SocketOpen 0] (constructor default_options)"
  let ?response = "[(''jsonrpc'', JStr ''2.0''), (''id'', JNum 1),
                    (''result'', JObj [(''subscription_id'', JStr ''abc'')])]"
  let ?notification = "[(''jsonrpc'', JStr ''2.0''), (''method'', JStr ''setup_update''),
                  (''params'', JObj [(''path'', JStr ''/x''), (''value'', JNum 1)])]"
  have w: "ws ?w = Some 0" "ready_state_of ?w 0 = Some OPEN" "requestId ?w = 0"
    by (simp_all add: world_defs)
  have sub: "SetupClient_subscribe (JStr ''setup_update'') ?w =
      (0, snd (SetupClient_subscribe (JStr ''setup_update'') ?w))"
    by (simp add: world_defs)
  have id: "map_of ?response ''id'' = Some (JNum (int (Suc (requestId ?w))))"
    using w(3) by simp
  from subscribe_is_a_request_and_notifications_are_dropped
    [OF w(1) w(2) sub id, of "JObj [(''subscription_id'', JStr ''abc'')]" _ ?notification]
  have "map_of (promises (handleMessage (Some (JObj ?response))
          (snd (SetupClient_subscribe (JStr ''setup_update'') ?w)))) 0 =
        Some (Fulfilled (JObj [(''subscription_id'', JStr ''abc'')]))"
    and "handleMessage (Some (JObj ?notification))
          (handleMessage (Some (JObj ?response))
            (snd (SetupClient_subscribe (JStr ''setup_update'') ?w))) =
         handleMessage (Some (JObj ?response))
            (snd (SetupClient_subscribe (JStr ''setup_update'') ?w))"
    by simp_all
  moreover have "sent (snd (SetupClient_subscribe (JStr ''setup_update'') ?w)) =
     [(0, Single \<lparr>req_method = ''setup_subscribe'',
                    req_params = JObj [(''topic'', JStr ''setup_update'')], req_id = 1\<rparr>)]"
    by (simp add: world_defs)
  moreover have "fst (SetupClient_subscribe (JStr ''setup_update'') ?w) = 0"
    by (simp add: world_defs)
  ultimately show ?thesis
    using w(1,2) by blast
qed

subsection \<open>Association lists\<close>

lemma set_update_subset: "set (AList.update k v al) \<subseteq> insert (k, v) (set al)"
  by (induction al) auto

lemma set_delete_subset: "set (AList.delete k al) \<subseteq> set al"
  by (induction al) auto

lemma key_notin_delete: "k \<notin> fst ` set (AList.delete k al)"
  by (induction al) auto

lemma update_above:
  "\<forall>k' \<in> fst ` set al. k' < (k::nat) \<Longrightarrow> AList.update k v al = al @ [(k, v)]"
  by (induction al) auto

lemma sorted_keys_delete:
  "sorted_wrt (<) (map fst al) \<Longrightarrow> sorted_wrt (<) (map fst (AList.delete k al))"
  by (induction al) (auto dest: subsetD [OF set_delete_subset])

lemma sorted_keys_distinct: "sorted_wrt (<) (map fst (al :: (nat \<times> 'a) list)) \<Longrightarrow> distinct (map fst al)"
  by (simp add: strict_sorted_iff)

lemma in_set_delete: "(k', v) \<in> set al \<Longrightarrow> k' \<noteq> k \<Longrightarrow> (k', v) \<in> set (AList.delete k al)"
  by (induction al) auto

subsection \<open>What the operations do to the four fields of the id invariant\<close>

lemma ids_okI:
  assumes "sorted_wrt (<) (map fst (pendingRequests w))"
    and "\<And>i. i \<in> fst ` set (pendingRequests w) \<Longrightarrow> i \<le> requestId w"
    and "distinct (map fst (settle_calls w))"
    and "\<And>i. i \<in> fst ` set (settle_calls w) \<Longrightarrow> i \<le> requestId w"
    and "\<And>i. i \<in> fst ` set (settle_calls w) \<Longrightarrow> i \<notin> fst ` set (pendingRequests w)"
    and "\<And>t i m p d. (t, RequestTimeout i m p, d) \<in> set (timers w) \<Longrightarrow> i \<le> requestId w"
    and "\<And>t i m p d. (t, RequestTimeout i m p, d) \<in> set (timers w) \<Longrightarrow>
           i \<notin> fst ` set (settle_calls w)"
    and "\<And>t i m p d e. (t, RequestTimeout i m p, d) \<in> set (timers w) \<Longrightarrow>
           (i, e) \<in> set (pendingRequests w) \<Longrightarrow> e = FromRequest t p"
    and "\<And>t i m p d t' m' p' d'. (t, RequestTimeout i m p, d) \<in> set (timers w) \<Longrightarrow>
           (t', RequestTimeout i m' p', d') \<in> set (timers w) \<Longrightarrow> t' = t"
  shows "ids_ok w"
proof -
  have "\<forall>i \<in> fst ` set (pendingRequests w). i \<le> requestId w"
    using assms(2) by blast
  moreover have "\<forall>i \<in> fst ` set (settle_calls w).
      i \<le> requestId w \<and> i \<notin> fst ` set (pendingRequests w)"
    using assms(4,5) by blast
  moreover have "\<forall>(t, task, d) \<in> set (timers w). \<forall>i m p.
        task = RequestTimeout i m p \<longrightarrow>
          i \<le> requestId w \<and> i \<notin> fst ` set (settle_calls w) \<and>
          (\<forall>e. (i, e) \<in> set (pendingRequests w) \<longrightarrow> e = FromRequest t p) \<and>
          (\<forall>t' m' p' d'. (t', RequestTimeout i m' p', d') \<in> set (timers w) \<longrightarrow> t' = t)"
  proof (intro ballI)
    fix x assume x: "x \<in> set (timers w)"
    obtain t task d where xt: "x = (t, task, d)" by (cases x)
    have "i \<le> requestId w \<and> i \<notin> fst ` set (settle_calls w) \<and>
          (\<forall>e. (i, e) \<in> set (pendingRequests w) \<longrightarrow> e = FromRequest t p) \<and>
          (\<forall>t' m' p' d'. (t', RequestTimeout i m' p', d') \<in> set (timers w) \<longrightarrow> t' = t)"
      if "task = RequestTimeout i m p" for i m p
    proof -
      from x xt that have live: "(t, RequestTimeout i m p, d) \<in> set (timers w)" by simp
      show ?thesis
        using assms(6) [OF live] assms(7) [OF live] assms(8) [OF live] assms(9) [OF live]
        by (intro conjI allI impI)
    qed
    then show "case x of (t, task, d) \<Rightarrow> \<forall>i m p.
        task = RequestTimeout i m p \<longrightarrow>
          i \<le> requestId w \<and> i \<notin> fst ` set (settle_calls w) \<and>
          (\<forall>e. (i, e) \<in> set (pendingRequests w) \<longrightarrow> e = FromRequest t p) \<and>
          (\<forall>t' m' p' d'. (t', RequestTimeout i m' p', d') \<in> set (timers w) \<longrightarrow> t' = t)"
      unfolding xt by simp
  qed
  ultimately show ?thesis
    unfolding ids_ok_def using assms(1,3) by (intro conjI)
qed

lemma ids_ok_sorted: "ids_ok w \<Longrightarrow> sorted_wrt (<) (map fst (pendingRequests w))"
  unfolding ids_ok_def by (elim conjE)

lemma ids_ok_keys: "ids_ok w \<Longrightarrow> i \<in> fst ` set (pendingRequests w) \<Longrightarrow> i \<le> requestId w"
  unfolding ids_ok_def by (elim conjE) (erule bspec)

lemma ids_ok_distinct: "ids_ok w \<Longrightarrow> distinct (map fst (settle_calls w))"
  unfolding ids_ok_def by (elim conjE)

lemma ids_ok_called: "ids_ok w \<Longrightarrow> i \<in> fst ` set (settle_calls w) \<Longrightarrow> i \<le> requestId w"
  unfolding ids_ok_def by (elim conjE) (drule (1) bspec, erule conjunct1)

lemma ids_ok_called_gone:
  "ids_ok w \<Longrightarrow> i \<in> fst ` set (settle_calls w) \<Longrightarrow> i \<notin> fst ` set (pendingRequests w)"
  unfolding ids_ok_def by (elim conjE) (drule (1) bspec, erule conjunct2)

lemma ids_ok_timer:
  assumes "ids_ok w" and "(t, RequestTimeout i m p, d) \<in> set (timers w)"
  shows "i \<le> requestId w" and "i \<notin> fst ` set (settle_calls w)"
    and "\<And>e. (i, e) \<in> set (pendingRequests w) \<Longrightarrow> e = FromRequest t p"
    and "\<And>t' m' p' d'. (t', RequestTimeout i m' p', d') \<in> set (timers w) \<Longrightarrow> t' = t"
proof -
  from assms(1) have "\<forall>(t, task, d) \<in> set (timers w). \<forall>i m p.
        task = RequestTimeout i m p \<longrightarrow>
          i \<le> requestId w \<and> i \<notin> fst ` set (settle_calls w) \<and>
          (\<forall>e. (i, e) \<in> set (pendingRequests w) \<longrightarrow> e = FromRequest t p) \<and>
          (\<forall>t' m' p' d'. (t', RequestTimeout i m' p', d') \<in> set (timers w) \<longrightarrow> t' = t)"
    unfolding ids_ok_def by (elim conjE)
  from bspec [OF this assms(2)]
  have all: "i \<le> requestId w \<and> i \<notin> fst ` set (settle_calls w) \<and>
          (\<forall>e. (i, e) \<in> set (pendingRequests w) \<longrightarrow> e = FromRequest t p) \<and>
          (\<forall>t' m' p' d'. (t', RequestTimeout i m' p', d') \<in> set (timers w) \<longrightarrow> t' = t)"
    by simp
  from all show "i \<le> requestId w" by (elim conjE)
  from all show "i \<notin> fst ` set (settle_calls w)" by (elim conjE)
  from all show "e = FromRequest t p" if "(i, e) \<in> set (pendingRequests w)" for e
    using that by (elim conjE) (drule spec, erule (1) mp)
  from all have "\<forall>t' m' p' d'. (t', RequestTimeout i m' p', d') \<in> set (timers w) \<longrightarrow> t' = t"
    by (elim conjE)
  then show "t' = t" if "(t', RequestTimeout i m' p', d') \<in> set (timers w)" for t' m' p' d'
    using that by blast
qed

lemma ids_ok_weaken:
  assumes "ids_ok w"
    and "pendingRequests w' = pendingRequests w"
    and "requestId w' = requestId w"
    and "settle_calls w' = settle_calls w"
    and "\<And>x. x \<in> set (timers w') \<Longrightarrow> x \<in> set (timers w) \<or> (\<exists>t d. x = (t, Reconnect, d))"
  shows "ids_ok w'"
proof (rule ids_okI)
  have old: "(t, RequestTimeout i m p, d) \<in> set (timers w)"
    if "(t, RequestTimeout i m p, d) \<in> set (timers w')" for t i m p d
    using assms(5) [OF that] by blast
  show "i \<le> requestId w'" if "(t, RequestTimeout i m p, d) \<in> set (timers w')" for t i m p d
    using ids_ok_timer(1) [OF assms(1) old [OF that]] by (simp add: assms(3))
  show "i \<notin> fst ` set (settle_calls w')"
    if "(t, RequestTimeout i m p, d) \<in> set (timers w')" for t i m p d
    using ids_ok_timer(2) [OF assms(1) old [OF that]] by (simp add: assms(4))
  show "e = FromRequest t p"
    if "(t, RequestTimeout i m p, d) \<in> set (timers w')" "(i, e) \<in> set (pendingRequests w')"
    for t i m p d e
    using ids_ok_timer(3) [OF assms(1) old [OF that(1)], of e] that(2) by (simp add: assms(2))
  show "t' = t"
    if "(t, RequestTimeout i m p, d) \<in> set (timers w')"
      "(t', RequestTimeout i m' p', d') \<in> set (timers w')"
    for t i m p d t' m' p' d'
    using ids_ok_timer(4) [OF assms(1) old [OF that(1)] old [OF that(2)]] .
qed (use assms(1) in \<open>simp_all add: assms(2,3,4) ids_ok_sorted ids_ok_keys ids_ok_distinct
      ids_ok_called ids_ok_called_gone\<close>)

lemma ids_ok_same:
  assumes "ids_ok w"
    and "pendingRequests w' = pendingRequests w"
    and "requestId w' = requestId w"
    and "settle_calls w' = settle_calls w"
    and "timers w' = timers w"
  shows "ids_ok w'"
  using assms(1-4) by (rule ids_ok_weaken) (simp add: assms(5))

lemma ids_ok_clearTimeout: "ids_ok w \<Longrightarrow> ids_ok (clearTimeout t w)"
proof (erule ids_ok_weaken)
  fix x assume "x \<in> set (timers (clearTimeout t w))"
  then show "x \<in> set (timers w) \<or> (\<exists>t d. x = (t, Reconnect, d))"
    using set_delete_subset [of t "timers w"] by auto
qed simp_all

lemma ws_send_ids:
  assumes "ws_send s f w = Inr w'"
  shows "requestId w' = requestId w" "pendingRequests w' = pendingRequests w"
    "timers w' = timers w" "settle_calls w' = settle_calls w"
    "promises w' = promises w" "alls w' = alls w" "sockets w' = sockets w"
    "next_promise w' = next_promise w" "ws w' = ws w"
  using assms by (auto simp: ws_send_def split: option.splits ready_state.splits)

lemma request_body_ids:
  "requestId (request_body m ps p w) = Suc (requestId w)"
  "pendingRequests (request_body m ps p w) =
     AList.update (Suc (requestId w)) (FromRequest (next_timer w) p) (pendingRequests w)"
  "timers (request_body m ps p w) =
     AList.update (next_timer w) (RequestTimeout (Suc (requestId w)) m p, r_timeout (options w))
       (timers w)"
  "settle_calls (request_body m ps p w) = settle_calls w"
  by (auto simp: request_body_def Let_def setTimeout_def pending_set_def
      split: option.split sum.split dest: ws_send_ids)

lemma ids_ok_request_body:
  assumes "ids_ok w"
  shows "ids_ok (request_body m ps p w)"
proof -
  let ?i = "Suc (requestId w)"
  have above: "\<forall>k \<in> fst ` set (pendingRequests w). k < ?i"
    using ids_ok_keys [OF assms] by (auto simp: less_Suc_eq_le)
  have pend: "pendingRequests (request_body m ps p w) =
      pendingRequests w @ [(?i, FromRequest (next_timer w) p)]"
    by (simp add: request_body_ids update_above [OF above])
  show ?thesis
  proof (rule ids_okI)
    show "sorted_wrt (<) (map fst (pendingRequests (request_body m ps p w)))"
      using ids_ok_sorted [OF assms] above by (auto simp: pend sorted_wrt_append)
  next
    fix i assume "i \<in> fst ` set (pendingRequests (request_body m ps p w))"
    then show "i \<le> requestId (request_body m ps p w)"
      using ids_ok_keys [OF assms] by (auto simp: pend request_body_ids(1) le_Suc_eq)
  next
    show "distinct (map fst (settle_calls (request_body m ps p w)))"
      using ids_ok_distinct [OF assms] by (simp add: request_body_ids(4))
  next
    fix i assume "i \<in> fst ` set (settle_calls (request_body m ps p w))"
    then have i: "i \<in> fst ` set (settle_calls w)" by (simp add: request_body_ids(4))
    from ids_ok_called [OF assms i]
    show "i \<le> requestId (request_body m ps p w)" by (simp add: request_body_ids(1))
    from ids_ok_called [OF assms i] ids_ok_called_gone [OF assms i]
    show "i \<notin> fst ` set (pendingRequests (request_body m ps p w))"
      by (auto simp: pend)
  next
    have timer: "t = next_timer w \<and> i = ?i \<and> p' = p \<or>
        (t, RequestTimeout i m' p', d) \<in> set (timers w) \<and> i \<le> requestId w"
      if "(t, RequestTimeout i m' p', d) \<in> set (timers (request_body m ps p w))"
      for t i m' p' d
    proof -
      from that have "(t, RequestTimeout i m' p', d) =
          (next_timer w, RequestTimeout ?i m p, r_timeout (options w))
          \<or> (t, RequestTimeout i m' p', d) \<in> set (timers w)"
        using set_update_subset [of "next_timer w" _ "timers w"]
        by (auto simp: request_body_ids(3))
      then show ?thesis
        using ids_ok_timer(1) [OF assms] by auto
    qed
    fix t i m' p' d
    assume live: "(t, RequestTimeout i m' p', d) \<in> set (timers (request_body m ps p w))"
    show "i \<le> requestId (request_body m ps p w)"
      using timer [OF live] by (auto simp: request_body_ids(1))
    show "i \<notin> fst ` set (settle_calls (request_body m ps p w))"
    proof (cases "(t, RequestTimeout i m' p', d) \<in> set (timers w)")
      case True
      from ids_ok_timer(2) [OF assms True] show ?thesis
        by (simp add: request_body_ids(4))
    next
      case False
      with timer [OF live] have "i = ?i" by blast
      with ids_ok_called [OF assms, of ?i] show ?thesis
        by (auto simp: request_body_ids(4))
    qed
    show "e = FromRequest t p'"
      if "(i, e) \<in> set (pendingRequests (request_body m ps p w))" for e
    proof -
      from that have e: "(i, e) \<in> set (pendingRequests w) \<or>
          i = ?i \<and> e = FromRequest (next_timer w) p"
        by (auto simp: pend)
      have "i \<le> requestId w" if "(i, e) \<in> set (pendingRequests w)"
        using ids_ok_keys [OF assms, of i] that by force
      with e timer [OF live] ids_ok_timer(3) [OF assms, of t i m' p' d e] show ?thesis
        by auto
    qed
    show "t' = t"
      if "(t', RequestTimeout i m'' p'', d') \<in> set (timers (request_body m ps p w))"
      for t' m'' p'' d'
      using timer [OF live] timer [OF that] ids_ok_timer(4) [OF assms, of t i m' p' d t' m'' p'' d']
      by auto
  qed
qed

subsection \<open>The ids of a batch\<close>

lemma assign_ids_ids:
  "map req_id (fst (assign_ids rs n)) = [Suc n ..< Suc (n + length rs)]"
  "snd (assign_ids rs n) = n + length rs"
  "length (fst (assign_ids rs n)) = length rs"
proof (induction rs arbitrary: n)
  case Nil
  {
    case 1 show ?case by simp
  next
    case 2 show ?case by simp
  next
    case 3 show ?case by simp
  }
next
  case (Cons r rs)
  obtain m ps where r: "r = (m, ps)" by (cases r)
  {
    case 1
    show ?case
      using Cons.IH(1) [of "Suc n"] by (simp add: r split_beta upt_conv_Cons del: upt_Suc)
  next
    case 2
    show ?case
      using Cons.IH(2) [of "Suc n"] by (simp add: r split_beta)
  next
    case 3
    show ?case
      using Cons.IH(3) [of "Suc n"] by (simp add: r split_beta)
  }
qed

lemma pending_set_fields [simp]:
  "ws (pending_set i e w) = ws w"
  "requestId (pending_set i e w) = requestId w"
  "pendingRequests (pending_set i e w) = AList.update i e (pendingRequests w)"
  "state (pending_set i e w) = state w"
  "options (pending_set i e w) = options w"
  "reconnectTimer (pending_set i e w) = reconnectTimer w"
  "promises (pending_set i e w) = promises w"
  "next_promise (pending_set i e w) = next_promise w"
  "alls (pending_set i e w) = alls w"
  "timers (pending_set i e w) = timers w"
  "next_timer (pending_set i e w) = next_timer w"
  "sockets (pending_set i e w) = sockets w"
  "next_socket (pending_set i e w) = next_socket w"
  "sent (pending_set i e w) = sent w"
  "console (pending_set i e w) = console w"
  "settle_calls (pending_set i e w) = settle_calls w"
  by (simp_all add: pending_set_def)

lemma register_all_fields [simp]:
  "ws (snd (register_all qs w)) = ws w"
  "requestId (snd (register_all qs w)) = requestId w"
  "state (snd (register_all qs w)) = state w"
  "options (snd (register_all qs w)) = options w"
  "reconnectTimer (snd (register_all qs w)) = reconnectTimer w"
  "next_promise (snd (register_all qs w)) = next_promise w + length qs"
  "alls (snd (register_all qs w)) = alls w"
  "timers (snd (register_all qs w)) = timers w"
  "next_timer (snd (register_all qs w)) = next_timer w"
  "sockets (snd (register_all qs w)) = sockets w"
  "next_socket (snd (register_all qs w)) = next_socket w"
  "sent (snd (register_all qs w)) = sent w"
  "console (snd (register_all qs w)) = console w"
  "settle_calls (snd (register_all qs w)) = settle_calls w"
  by (induction qs arbitrary: w; simp add: split_beta Let_def)+

lemma register_all_promises:
  "fst (register_all qs w) = [next_promise w ..< next_promise w + length qs]"
  by (induction qs arbitrary: w) (simp_all add: split_beta Let_def upt_conv_Cons del: upt_Suc)

lemma register_all_pending:
  assumes "sorted_wrt (<) (map req_id qs)"
    and "\<forall>k \<in> fst ` set (pendingRequests w). \<forall>q \<in> set qs. k < req_id q"
  shows "pendingRequests (snd (register_all qs w)) =
         pendingRequests w @
         map (\<lambda>(q, p). (req_id q, FromBatch p)) (zip qs [next_promise w ..< next_promise w + length qs])"
  using assms
proof (induction qs arbitrary: w)
  case Nil
  then show ?case by simp
next
  case (Cons q qs)
  let ?w = "pending_set (req_id q) (FromBatch (next_promise w)) (snd (new_promise w))"
  have here: "pendingRequests ?w = pendingRequests w @ [(req_id q, FromBatch (next_promise w))]"
    using Cons.prems(2) by (simp add: update_above)
  have "pendingRequests (snd (register_all qs ?w)) =
         pendingRequests ?w @
         map (\<lambda>(q, p). (req_id q, FromBatch p)) (zip qs [next_promise ?w ..< next_promise ?w + length qs])"
  proof (rule Cons.IH)
    show "sorted_wrt (<) (map req_id qs)"
      using Cons.prems(1) by simp
    show "\<forall>k \<in> fst ` set (pendingRequests ?w). \<forall>q \<in> set qs. k < req_id q"
      unfolding here using Cons.prems by auto
  qed
  then have "pendingRequests (snd (register_all qs ?w)) =
         (pendingRequests w @ [(req_id q, FromBatch (next_promise w))]) @
         map (\<lambda>(q, p). (req_id q, FromBatch p))
           (zip qs [Suc (next_promise w) ..< Suc (next_promise w) + length qs])"
    unfolding here by simp
  then show ?case
    by (simp add: split_beta Let_def upt_conv_Cons del: upt_Suc)
qed

lemma promise_all_fields [simp]:
  "ws (promise_all c es w) = ws w"
  "requestId (promise_all c es w) = requestId w"
  "pendingRequests (promise_all c es w) = pendingRequests w"
  "state (promise_all c es w) = state w"
  "options (promise_all c es w) = options w"
  "reconnectTimer (promise_all c es w) = reconnectTimer w"
  "next_promise (promise_all c es w) = next_promise w"
  "alls (promise_all c es w) = alls w @ [(c, es)]"
  "timers (promise_all c es w) = timers w"
  "next_timer (promise_all c es w) = next_timer w"
  "sockets (promise_all c es w) = sockets w"
  "next_socket (promise_all c es w) = next_socket w"
  "sent (promise_all c es w) = sent w"
  "console (promise_all c es w) = console w"
  "settle_calls (promise_all c es w) = settle_calls w"
  by (simp_all add: promise_all_def Let_def split: option.split)

lemma batch_body_ids:
  "requestId (batch_body rs p w) = requestId w + length rs"
  "timers (batch_body rs p w) = timers w"
  "settle_calls (batch_body rs p w) = settle_calls w"
  "pendingRequests (batch_body rs p w) =
     pendingRequests (snd (register_all (fst (assign_ids rs (requestId w)))
                        (w\<lparr>requestId := snd (assign_ids rs (requestId w))\<rparr>)))"
  by (auto simp: batch_body_def Let_def split_beta assign_ids_ids
      split: option.split sum.split dest: ws_send_ids)

lemma batch_body_pending:
  assumes "\<forall>k \<in> fst ` set (pendingRequests w). k \<le> requestId w"
  shows "pendingRequests (batch_body rs p w) =
     pendingRequests w @
     map (\<lambda>(q, e). (req_id q, FromBatch e))
       (zip (fst (assign_ids rs (requestId w))) [next_promise w ..< next_promise w + length rs])"
proof -
  let ?qs = "fst (assign_ids rs (requestId w))"
  have ids: "map req_id ?qs = [Suc (requestId w) ..< Suc (requestId w + length rs)]"
    by (rule assign_ids_ids)
  have sorted: "sorted_wrt (<) (map req_id ?qs)"
    unfolding ids by (rule sorted_wrt_upt)
  have "req_id q \<in> set (map req_id ?qs)" if "q \<in> set ?qs" for q
    using that by simp
  then have "requestId w < req_id q" if "q \<in> set ?qs" for q
    using that unfolding ids by fastforce
  with assms have above: "\<forall>k \<in> fst ` set (pendingRequests (w\<lparr>requestId := snd (assign_ids rs (requestId w))\<rparr>)).
      \<forall>q \<in> set ?qs. k < req_id q"
    by fastforce
  show ?thesis
    unfolding batch_body_ids(4) register_all_pending [OF sorted above]
    by (simp add: assign_ids_ids)
qed

lemma batch_body_keys:
  assumes "\<forall>k \<in> fst ` set (pendingRequests w). k \<le> requestId w"
  shows "map fst (pendingRequests (batch_body rs p w)) =
         map fst (pendingRequests w) @ [Suc (requestId w) ..< Suc (requestId w + length rs)]"
proof -
  have "map fst (map (\<lambda>(q, e). (req_id q, FromBatch e)) (zip qs es)) = map req_id qs"
    if "length qs = length es" for qs :: "JrpcRequest list" and es :: "nat list"
    using that by (induction qs es rule: list_induct2) simp_all
  from this [of "fst (assign_ids rs (requestId w))" "[next_promise w ..< next_promise w + length rs]"]
  show ?thesis
    by (simp add: batch_body_pending [OF assms] assign_ids_ids)
qed

lemma ids_ok_batch_body:
  assumes "ids_ok w"
  shows "ids_ok (batch_body rs p w)"
proof -
  have below: "\<forall>k \<in> fst ` set (pendingRequests w). k \<le> requestId w"
    using ids_ok_keys [OF assms] by blast
  note keys = batch_body_keys [OF below, of rs p]
  have keyset: "fst ` set (pendingRequests (batch_body rs p w)) =
      fst ` set (pendingRequests w) \<union> {Suc (requestId w) ..< Suc (requestId w + length rs)}"
    using arg_cong [OF keys, of set] by (simp del: upt_Suc)
  show ?thesis
  proof (rule ids_okI)
    show "sorted_wrt (<) (map fst (pendingRequests (batch_body rs p w)))"
      unfolding keys using ids_ok_sorted [OF assms] below
      by (auto simp: sorted_wrt_append simp del: upt_Suc)
  next
    fix i assume "i \<in> fst ` set (pendingRequests (batch_body rs p w))"
    then show "i \<le> requestId (batch_body rs p w)"
      unfolding keyset using below by (auto simp: batch_body_ids(1))
  next
    show "distinct (map fst (settle_calls (batch_body rs p w)))"
      using ids_ok_distinct [OF assms] by (simp add: batch_body_ids(3))
  next
    fix i assume "i \<in> fst ` set (settle_calls (batch_body rs p w))"
    then have i: "i \<in> fst ` set (settle_calls w)" by (simp add: batch_body_ids(3))
    from ids_ok_called [OF assms i]
    show "i \<le> requestId (batch_body rs p w)" by (simp add: batch_body_ids(1))
    from ids_ok_called [OF assms i] ids_ok_called_gone [OF assms i]
    show "i \<notin> fst ` set (pendingRequests (batch_body rs p w))"
      unfolding keyset by auto
  next
    fix t i m' p' d
    assume "(t, RequestTimeout i m' p', d) \<in> set (timers (batch_body rs p w))"
    then have live: "(t, RequestTimeout i m' p', d) \<in> set (timers w)"
      by (simp add: batch_body_ids(2))
    show "i \<le> requestId (batch_body rs p w)"
      using ids_ok_timer(1) [OF assms live] by (simp add: batch_body_ids(1))
    show "i \<notin> fst ` set (settle_calls (batch_body rs p w))"
      using ids_ok_timer(2) [OF assms live] by (simp add: batch_body_ids(3))
    show "e = FromRequest t p'" if "(i, e) \<in> set (pendingRequests (batch_body rs p w))" for e
    proof -
      from that have "(i, e) \<in> set (pendingRequests w) \<or>
          (i, e) \<in> set (map (\<lambda>(q, e). (req_id q, FromBatch e))
            (zip (fst (assign_ids rs (requestId w)))
               [next_promise w ..< next_promise w + length rs]))"
        by (simp add: batch_body_pending [OF below])
      moreover have "requestId w < i"
        if new: "(i, e) \<in> set (map (\<lambda>(q, e). (req_id q, FromBatch e))
            (zip (fst (assign_ids rs (requestId w)))
               [next_promise w ..< next_promise w + length rs]))"
      proof -
        from new obtain q where "q \<in> set (fst (assign_ids rs (requestId w)))" "i = req_id q"
          by (auto dest: set_zip_leftD)
        then have "i \<in> set (map req_id (fst (assign_ids rs (requestId w))))"
          by simp
        then have "i \<in> set [Suc (requestId w) ..< Suc (requestId w + length rs)]"
          by (simp only: assign_ids_ids(1))
        then show ?thesis
          by (simp del: upt_Suc)
      qed
      ultimately show ?thesis
        using ids_ok_timer(1,3) [OF assms live] by fastforce
    qed
    show "t' = t" if "(t', RequestTimeout i m'' p'', d') \<in> set (timers (batch_body rs p w))"
      for t' m'' p'' d'
      using ids_ok_timer(4) [OF assms live, of t' m'' p'' d'] that
      by (simp add: batch_body_ids(2))
  qed
qed

subsection \<open>Settling one entry\<close>

lemma in_set_deleteD: "x \<in> set (AList.delete k al) \<Longrightarrow> x \<in> set al"
  using set_delete_subset [of k al] by blast

lemma pending_reject_timers:
  "timers (pending_reject i pending e w) =
   (case pending of FromRequest t p \<Rightarrow> AList.delete t (timers w) | FromBatch p \<Rightarrow> timers w)"
  by (cases pending) simp_all

lemma pending_resolve_timers:
  "timers (pending_resolve i pending v w) =
   (case pending of FromRequest t p \<Rightarrow> AList.delete t (timers w) | FromBatch p \<Rightarrow> timers w)"
  by (cases pending) simp_all

lemma ids_ok_settle:
  assumes ok: "ids_ok w"
    and bound: "i \<le> requestId w"
    and fresh: "i \<notin> fst ` set (settle_calls w)"
    and pend: "pendingRequests w' = AList.delete i (pendingRequests w)"
    and rid: "requestId w' = requestId w"
    and calls: "settle_calls w' = settle_calls w @ [(i, x)]"
    and sub: "set (timers w') \<subseteq> set (timers w)"
    and gone: "\<And>t m p d. (t, RequestTimeout i m p, d) \<notin> set (timers w')"
  shows "ids_ok w'"
proof (rule ids_okI)
  show "sorted_wrt (<) (map fst (pendingRequests w'))"
    unfolding pend by (rule sorted_keys_delete) (rule ids_ok_sorted [OF ok])
next
  fix j assume "j \<in> fst ` set (pendingRequests w')"
  then have "j \<in> fst ` set (pendingRequests w)"
    unfolding pend using set_delete_subset [of i "pendingRequests w"] by auto
  then show "j \<le> requestId w'"
    unfolding rid by (rule ids_ok_keys [OF ok])
next
  show "distinct (map fst (settle_calls w'))"
    unfolding calls using ids_ok_distinct [OF ok] fresh by simp
next
  fix j assume "j \<in> fst ` set (settle_calls w')"
  then have j: "j = i \<or> j \<in> fst ` set (settle_calls w)"
    unfolding calls by auto
  show "j \<le> requestId w'"
    unfolding rid using j bound ids_ok_called [OF ok] by blast
  show "j \<notin> fst ` set (pendingRequests w')"
  proof (cases "j = i")
    case True
    then show ?thesis unfolding pend by (simp add: key_notin_delete)
  next
    case False
    with j have "j \<notin> fst ` set (pendingRequests w)"
      using ids_ok_called_gone [OF ok] by blast
    then show ?thesis
      unfolding pend using set_delete_subset [of i "pendingRequests w"] by auto
  qed
next
  fix t j m p d
  assume t: "(t, RequestTimeout j m p, d) \<in> set (timers w')"
  with sub have live: "(t, RequestTimeout j m p, d) \<in> set (timers w)" by blast
  from t gone have "j \<noteq> i" by blast
  show "j \<le> requestId w'"
    unfolding rid by (rule ids_ok_timer(1) [OF ok live])
  show "j \<notin> fst ` set (settle_calls w')"
    unfolding calls using ids_ok_timer(2) [OF ok live] \<open>j \<noteq> i\<close> by auto
  show "e = FromRequest t p" if "(j, e) \<in> set (pendingRequests w')" for e
  proof -
    from that have "(j, e) \<in> set (pendingRequests w)"
      unfolding pend by (rule in_set_deleteD)
    then show ?thesis by (rule ids_ok_timer(3) [OF ok live])
  qed
  show "t' = t" if "(t', RequestTimeout j m' p', d') \<in> set (timers w')" for t' m' p' d'
  proof -
    from that sub have "(t', RequestTimeout j m' p', d') \<in> set (timers w)" by blast
    then show ?thesis by (rule ids_ok_timer(4) [OF ok live])
  qed
qed

lemma ids_ok_pending_delete:
  assumes ok: "ids_ok w"
  shows "ids_ok (pending_delete i w)"
proof (rule ids_okI)
  show "sorted_wrt (<) (map fst (pendingRequests (pending_delete i w)))"
    by (simp add: sorted_keys_delete ids_ok_sorted [OF ok])
next
  fix j assume "j \<in> fst ` set (pendingRequests (pending_delete i w))"
  then have "j \<in> fst ` set (pendingRequests w)"
    using set_delete_subset [of i "pendingRequests w"] by auto
  then show "j \<le> requestId (pending_delete i w)"
    using ids_ok_keys [OF ok] by simp
next
  show "distinct (map fst (settle_calls (pending_delete i w)))"
    using ids_ok_distinct [OF ok] by simp
next
  fix j assume "j \<in> fst ` set (settle_calls (pending_delete i w))"
  then have j: "j \<in> fst ` set (settle_calls w)" by simp
  show "j \<le> requestId (pending_delete i w)"
    using ids_ok_called [OF ok j] by simp
  show "j \<notin> fst ` set (pendingRequests (pending_delete i w))"
    using ids_ok_called_gone [OF ok j] set_delete_subset [of i "pendingRequests w"] by auto
next
  fix t j m p d
  assume "(t, RequestTimeout j m p, d) \<in> set (timers (pending_delete i w))"
  then have live: "(t, RequestTimeout j m p, d) \<in> set (timers w)" by simp
  show "j \<le> requestId (pending_delete i w)"
    using ids_ok_timer(1) [OF ok live] by simp
  show "j \<notin> fst ` set (settle_calls (pending_delete i w))"
    using ids_ok_timer(2) [OF ok live] by simp
  show "e = FromRequest t p" if "(j, e) \<in> set (pendingRequests (pending_delete i w))" for e
  proof -
    from that have "(j, e) \<in> set (pendingRequests w)"
      by (auto dest: in_set_deleteD)
    then show ?thesis by (rule ids_ok_timer(3) [OF ok live])
  qed
  show "t' = t" if "(t', RequestTimeout j m' p', d') \<in> set (timers (pending_delete i w))"
    for t' m' p' d'
    using ids_ok_timer(4) [OF ok live, of t' m' p' d'] that by simp
qed

lemma ids_ok_console_warn: "ids_ok w \<Longrightarrow> ids_ok (console_warn s v w)"
  by (erule ids_ok_same) (simp_all add: console_warn_def)

lemma ids_ok_console_error: "ids_ok w \<Longrightarrow> ids_ok (console_error s e w)"
  by (erule ids_ok_same) (simp_all add: console_error_def)

lemma ids_ok_console_log: "ids_ok w \<Longrightarrow> ids_ok (console_log s w)"
  by (erule ids_ok_same) (simp_all add: console_log_def)

lemma pending_get_SomeD:
  "pending_get w v = Some (i, e) \<Longrightarrow> (i, e) \<in> set (pendingRequests w)"
  by (auto simp: pending_get_def split: option.splits dest: map_of_SomeD)

lemma ids_ok_entry_unique:
  "ids_ok w \<Longrightarrow> (i, e) \<in> set (pendingRequests w) \<Longrightarrow> (i, e') \<in> set (pendingRequests w) \<Longrightarrow>
   e = e'"
  by (rule eq_key_imp_eq_value [OF sorted_keys_distinct [OF ids_ok_sorted]])

lemma ids_ok_settle_entry:
  assumes ok: "ids_ok w" and entry: "(i, e) \<in> set (pendingRequests w)"
  shows "ids_ok (pending_reject i e err (pending_delete i w))"
    and "ids_ok (pending_resolve i e v (pending_delete i w))"
proof -
  have key: "i \<in> fst ` set (pendingRequests w)"
    using entry by force
  note bound = ids_ok_keys [OF ok key]
  have fresh: "i \<notin> fst ` set (settle_calls w)"
    using ids_ok_called_gone [OF ok] key by blast
  have cleared: "(t, RequestTimeout i m p, d) \<notin> set (case e of
        FromRequest t' p' \<Rightarrow> AList.delete t' (timers w) | FromBatch p' \<Rightarrow> timers w)"
    for t m p d
  proof
    assume live': "(t, RequestTimeout i m p, d) \<in> set (case e of
        FromRequest t' p' \<Rightarrow> AList.delete t' (timers w) | FromBatch p' \<Rightarrow> timers w)"
    then have live: "(t, RequestTimeout i m p, d) \<in> set (timers w)"
      by (cases e) (auto dest: in_set_deleteD)
    from ids_ok_timer(3) [OF ok live entry] have "e = FromRequest t p" .
    with live' have "(t, RequestTimeout i m p, d) \<in> set (AList.delete t (timers w))"
      by simp
    then have "t \<in> fst ` set (AList.delete t (timers w))"
      by force
    then show False
      by (simp add: key_notin_delete)
  qed
  show "ids_ok (pending_reject i e err (pending_delete i w))"
  proof (rule ids_ok_settle [OF ok bound fresh])
    show "settle_calls (pending_reject i e err (pending_delete i w)) =
        settle_calls w @ [(i, Rejected err)]" by simp
    show "set (timers (pending_reject i e err (pending_delete i w))) \<subseteq> set (timers w)"
      by (cases e) (auto dest: in_set_deleteD)
    show "(t, RequestTimeout i m p, d) \<notin> set (timers (pending_reject i e err (pending_delete i w)))"
      for t m p d
      using cleared [of t m p d]
      by (simp add: pending_reject_timers cong: pending_entry.case_cong)
  qed simp_all
  show "ids_ok (pending_resolve i e v (pending_delete i w))"
  proof (rule ids_ok_settle [OF ok bound fresh])
    show "settle_calls (pending_resolve i e v (pending_delete i w)) =
        settle_calls w @ [(i, Fulfilled v)]" by simp
    show "set (timers (pending_resolve i e v (pending_delete i w))) \<subseteq> set (timers w)"
      by (cases e) (auto dest: in_set_deleteD)
    show "(t, RequestTimeout i m p, d) \<notin> set (timers (pending_resolve i e v (pending_delete i w)))"
      for t m p d
      using cleared [of t m p d]
      by (simp add: pending_resolve_timers cong: pending_entry.case_cong)
  qed simp_all
qed

lemma handleSingleMessage_cases:
  obtains (unchanged) "outcome (handleSingleMessage message w) = w"
  | (warned) v where "outcome (handleSingleMessage message w) =
        console_warn ''Received response for unknown request:'' v w"
  | (thrown) i where "outcome (handleSingleMessage message w) = pending_delete i w"
  | (rejected) i e err where "(i, e) \<in> set (pendingRequests w)"
      "outcome (handleSingleMessage message w) = pending_reject i e err (pending_delete i w)"
  | (resolved) i e v where "(i, e) \<in> set (pendingRequests w)"
      "outcome (handleSingleMessage message w) = pending_resolve i e v (pending_delete i w)"
proof (cases "js_in ''id'' message")
  case (Inl e)
  then have "outcome (handleSingleMessage message w) = w"
    by (simp add: handleSingleMessage_def)
  then show ?thesis by (rule unchanged)
next
  case (Inr b)
  show ?thesis
  proof (cases b)
    case False
    with Inr have "outcome (handleSingleMessage message w) = w"
      by (simp add: handleSingleMessage_def)
    then show ?thesis by (rule unchanged)
  next
    case True
    show ?thesis
    proof (cases "pending_get w (get_prop message ''id'')")
      case None
      with Inr True have "outcome (handleSingleMessage message w) =
          console_warn ''Received response for unknown request:'' (get_prop message ''id'') w"
        by (simp add: handleSingleMessage_def)
      then show ?thesis by (rule warned)
    next
      case (Some ie)
      obtain i e where ie: "ie = (i, e)" by (cases ie)
      from Some have entry: "(i, e) \<in> set (pendingRequests w)"
        unfolding ie by (rule pending_get_SomeD)
      show ?thesis
      proof (cases "truthy (get_prop message ''error'')")
        case False
        with Inr True Some ie have "outcome (handleSingleMessage message w) =
            pending_resolve i e (get_prop message ''result'') (pending_delete i w)"
          by (simp add: handleSingleMessage_def)
        with entry show ?thesis by (rule resolved)
      next
        case truthy: True
        show ?thesis
        proof (cases "js_string (get_prop (get_prop message ''error'') ''message'')")
          case (Inl x)
          with Inr True Some ie truthy
          have "outcome (handleSingleMessage message w) = pending_delete i w"
            by (simp add: handleSingleMessage_def)
          then show ?thesis by (rule thrown)
        next
          case m: (Inr m)
          show ?thesis
          proof (cases "js_string (get_prop (get_prop message ''error'') ''code'')")
            case (Inl x)
            with Inr True Some ie truthy m
            have "outcome (handleSingleMessage message w) = pending_delete i w"
              by (simp add: handleSingleMessage_def)
            then show ?thesis by (rule thrown)
          next
            case c: (Inr c)
            with Inr True Some ie truthy m
            have "outcome (handleSingleMessage message w) =
                pending_reject i e (Error (m @ '' (code: '' @ c @ '')'')) (pending_delete i w)"
              by (simp add: handleSingleMessage_def)
            with entry show ?thesis by (rule rejected)
          qed
        qed
      qed
    qed
  qed
qed

lemma ids_ok_handleSingleMessage:
  assumes "ids_ok w"
  shows "ids_ok (outcome (handleSingleMessage message w))"
  by (cases message w rule: handleSingleMessage_cases)
    (simp_all add: assms ids_ok_console_warn ids_ok_pending_delete ids_ok_settle_entry [OF assms])

lemma ids_ok_handle_items:
  "ids_ok w \<Longrightarrow> ids_ok (snd (handle_items items w))"
proof (induction items arbitrary: w)
  case Nil
  then show ?case by simp
next
  case (Cons item items)
  from Cons.prems have "ids_ok (outcome (handleSingleMessage item w))"
    by (rule ids_ok_handleSingleMessage)
  with Cons.IH show ?case
    by (auto split: sum.split)
qed

lemma handleMessage_array:
  "handleMessage (Some (JArr items)) w =
   (case fst (handle_items items w) of
      None \<Rightarrow> snd (handle_items items w)
    | Some e \<Rightarrow> console_error ''Failed to parse message:'' e (snd (handle_items items w)))"
  by (simp add: handleMessage_def split: prod.split option.split)

lemma handleMessage_single:
  "\<forall>items. message \<noteq> JArr items \<Longrightarrow>
   handleMessage (Some message) w =
   (case handleSingleMessage message w of
      Inr w1 \<Rightarrow> w1
    | Inl x \<Rightarrow> console_error ''Failed to parse message:'' (fst x)
                 (outcome (handleSingleMessage message w)))"
  by (cases message) (simp_all add: handleMessage_def split: sum.split prod.split)

lemma handleMessage_unparsable:
  "handleMessage None w = console_error ''Failed to parse message:'' SyntaxError w"
  by (simp add: handleMessage_def)

lemma ids_ok_handleMessage:
  assumes "ids_ok w"
  shows "ids_ok (handleMessage data w)"
proof (cases data)
  case None
  then show ?thesis
    by (simp add: handleMessage_unparsable ids_ok_console_error assms)
next
  case (Some message)
  show ?thesis
  proof (cases "\<exists>items. message = JArr items")
    case True
    then obtain items where "message = JArr items" by blast
    then show ?thesis
      using ids_ok_handle_items [OF assms, of items]
      by (simp add: Some handleMessage_array ids_ok_console_error split: option.split)
  next
    case False
    then show ?thesis
      using ids_ok_handleSingleMessage [OF assms, of message]
      by (auto simp: Some handleMessage_single ids_ok_console_error split: sum.split)
  qed
qed

subsection \<open>Connection and events\<close>

lemma ids_ok_reject_promise: "ids_ok w \<Longrightarrow> ids_ok (reject_promise p e w)"
  by (erule ids_ok_same) simp_all

lemma ids_ok_new_promise: "ids_ok w \<Longrightarrow> ids_ok (snd (new_promise w))"
  by (erule ids_ok_same) simp_all

lemma ids_ok_run_cont: "ids_ok w \<Longrightarrow> ids_ok (run_cont k w)"
  by (cases k) (simp_all add: ids_ok_request_body ids_ok_batch_body)

lemma ids_ok_fail_cont: "ids_ok w \<Longrightarrow> ids_ok (fail_cont k e w)"
  by (cases k) (simp_all add: ids_ok_reject_promise ids_ok_console_error)

lemma ids_ok_connect: "ids_ok w \<Longrightarrow> ids_ok (connect k w)"
  unfolding connect_def Let_def
  by (auto intro: ids_ok_run_cont elim: ids_ok_same)

lemma ids_ok_set_ready_state: "ids_ok w \<Longrightarrow> ids_ok (set_ready_state s r w)"
  by (erule ids_ok_same) (simp_all add: set_ready_state_def split: option.split)

lemma ids_ok_state: "ids_ok w \<Longrightarrow> ids_ok (w\<lparr>state := x\<rparr>)"
  by (erule ids_ok_same) simp_all

lemma ids_ok_reconnectTimer: "ids_ok w \<Longrightarrow> ids_ok (w\<lparr>reconnectTimer := x\<rparr>)"
  by (erule ids_ok_same) simp_all

lemma ids_ok_ws: "ids_ok w \<Longrightarrow> ids_ok (w\<lparr>ws := x\<rparr>)"
  by (erule ids_ok_same) simp_all

lemma ids_ok_sockets: "ids_ok w \<Longrightarrow> ids_ok (w\<lparr>sockets := x\<rparr>)"
  by (erule ids_ok_same) simp_all

lemma ids_ok_resolve_opened: "ids_ok w \<Longrightarrow> ids_ok (resolve_opened s w)"
  unfolding resolve_opened_def
  by (auto split: option.split intro!: ids_ok_run_cont ids_ok_sockets)

lemma ids_ok_reject_opened: "ids_ok w \<Longrightarrow> ids_ok (reject_opened s e w)"
  unfolding reject_opened_def
  by (auto split: option.split intro!: ids_ok_fail_cont ids_ok_sockets)

lemma ids_ok_clear_reconnect:
  "ids_ok w \<Longrightarrow>
   ids_ok (case reconnectTimer w of
             Some t \<Rightarrow> (clearTimeout t w)\<lparr>reconnectTimer := None\<rparr>
           | None \<Rightarrow> w)"
  by (auto split: option.split intro!: ids_ok_reconnectTimer ids_ok_clearTimeout)

lemma ids_ok_ws_onopen: "ids_ok w \<Longrightarrow> ids_ok (ws_onopen s w)"
  unfolding ws_onopen_def Let_def
  by (intro ids_ok_resolve_opened ids_ok_clear_reconnect ids_ok_state)

lemma ids_ok_ws_onerror: "ids_ok w \<Longrightarrow> ids_ok (ws_onerror s w)"
  unfolding ws_onerror_def
  by (intro ids_ok_reject_opened ids_ok_state)

lemma ids_ok_handleDisconnect: "ids_ok w \<Longrightarrow> ids_ok (handleDisconnect w)"
proof (cases "r_reconnect (options w) \<and> state w \<noteq> error")
  case True
  assume ok: "ids_ok w"
  have "ids_ok (w\<lparr>timers := AList.update (next_timer w) (Reconnect, r_reconnectDelay (options w))
                             (timers w),
                  next_timer := Suc (next_timer w), reconnectTimer := Some (next_timer w)\<rparr>)"
  proof (rule ids_ok_weaken [OF ok])
    fix x
    assume "x \<in> set (timers (w\<lparr>timers := AList.update (next_timer w)
        (Reconnect, r_reconnectDelay (options w)) (timers w),
        next_timer := Suc (next_timer w), reconnectTimer := Some (next_timer w)\<rparr>))"
    then show "x \<in> set (timers w) \<or> (\<exists>t d. x = (t, Reconnect, d))"
      using set_update_subset [of "next_timer w" "(Reconnect, r_reconnectDelay (options w))" "timers w"]
      by auto
  qed simp_all
  with True show ?thesis
    by (simp add: handleDisconnect_def setTimeout_def)
next
  case False
  assume "ids_ok w"
  with False show ?thesis
    by (auto simp: handleDisconnect_def)
qed

lemma ids_ok_ws_onclose: "ids_ok w \<Longrightarrow> ids_ok (ws_onclose w)"
  unfolding ws_onclose_def by (intro ids_ok_handleDisconnect ids_ok_state)

lemma ids_ok_open_event: "ids_ok w \<Longrightarrow> ids_ok (open_event s w)"
  by (simp add: open_event_def ids_ok_ws_onopen ids_ok_set_ready_state)

lemma ids_ok_message_event: "ids_ok w \<Longrightarrow> ids_ok (message_event s data w)"
  by (simp add: message_event_def ids_ok_handleMessage)

lemma ids_ok_close_event: "ids_ok w \<Longrightarrow> ids_ok (close_event s w)"
  by (simp add: close_event_def ids_ok_ws_onclose ids_ok_set_ready_state)

lemma ids_ok_error_event: "ids_ok w \<Longrightarrow> ids_ok (error_event s w)"
  by (simp add: error_event_def ids_ok_ws_onclose ids_ok_ws_onerror ids_ok_set_ready_state)

lemma ids_ok_request: "ids_ok w \<Longrightarrow> ids_ok (snd (request m ps w))"
  by (simp add: request_def split_beta Let_def ids_ok_connect ids_ok_request_body
      ids_ok_new_promise)

lemma ids_ok_batch: "ids_ok w \<Longrightarrow> ids_ok (snd (batch rs w))"
  by (simp add: batch_def split_beta Let_def ids_ok_connect ids_ok_batch_body
      ids_ok_new_promise)

lemma ids_ok_timer_fire:
  assumes ok: "ids_ok w"
  shows "ids_ok (timer_fire t w)"
proof (cases "map_of (timers w) t")
  case None
  with ok show ?thesis by (simp add: timer_fire_def)
next
  case (Some td)
  obtain task d where td: "td = (task, d)" by (cases td)
  from Some have live: "(t, task, d) \<in> set (timers w)"
    unfolding td by (rule map_of_SomeD)
  show ?thesis
  proof (cases task)
    case Reconnect
    with Some td ok show ?thesis
      by (simp add: timer_fire_def ids_ok_connect ids_ok_console_log ids_ok_clearTimeout)
  next
    case (RequestTimeout i m p)
    note timer = ids_ok_timer [OF ok live [unfolded RequestTimeout]]
    have "ids_ok (call_reject i p (Error (''Request timeout: '' @ m))
                    (pending_delete i (clearTimeout t w)))"
    proof (rule ids_ok_settle [OF ok timer(1,2)])
      show "set (timers (call_reject i p (Error (''Request timeout: '' @ m))
                    (pending_delete i (clearTimeout t w)))) \<subseteq> set (timers w)"
        by (auto dest: in_set_deleteD)
      show "(t', RequestTimeout i m' p', d') \<notin> set (timers (call_reject i p
                    (Error (''Request timeout: '' @ m)) (pending_delete i (clearTimeout t w))))"
        for t' m' p' d'
      proof
        assume "(t', RequestTimeout i m' p', d') \<in> set (timers (call_reject i p
                    (Error (''Request timeout: '' @ m)) (pending_delete i (clearTimeout t w))))"
        then have left: "(t', RequestTimeout i m' p', d') \<in> set (AList.delete t (timers w))"
          by simp
        then have "t' = t"
          by (intro timer(4)) (rule in_set_deleteD)
        with left have "t \<in> fst ` set (AList.delete t (timers w))"
          by force
        then show False
          by (simp add: key_notin_delete)
      qed
    qed simp_all
    with Some td RequestTimeout show ?thesis
      by (simp add: timer_fire_def)
  qed
qed

subsection \<open>Disconnecting\<close>

lemma reject_all_timers_subset: "set (timers (reject_all es w)) \<subseteq> set (timers w)"
proof (induction es w rule: reject_all.induct)
  case (1 w)
  show ?case by simp
next
  case (2 i pending rest w)
  have "set (timers (pending_reject i pending (Error ''Connection closed'') w)) \<subseteq> set (timers w)"
    by (cases pending) (auto dest: in_set_deleteD)
  with 2 show ?case by auto
qed

lemma reject_all_timers_gone:
  "(i, FromRequest t p) \<in> set es \<Longrightarrow> t \<notin> fst ` set (timers (reject_all es w))"
proof (induction es w rule: reject_all.induct)
  case (1 w)
  then show ?case by simp
next
  case (2 j pending rest w)
  show ?case
  proof (cases "(i, FromRequest t p) = (j, pending)")
    case True
    then have "pending = FromRequest t p" by simp
    then have "t \<notin> fst ` set (timers (pending_reject j pending (Error ''Connection closed'') w))"
      by (simp add: key_notin_delete)
    then show ?thesis
      using reject_all_timers_subset
        [of rest "pending_reject j pending (Error ''Connection closed'') w"]
      by auto
  next
    case False
    with 2 show ?thesis by auto
  qed
qed

lemma reject_all_called:
  "map fst (settle_calls (reject_all es w)) = map fst (settle_calls w) @ map fst es"
  by (induction es w rule: reject_all.induct) simp_all

lemma ids_ok_disconnect:
  assumes ok: "ids_ok w"
  shows "ids_ok (disconnect w)"
proof -
  define w3 where "w3 =
    (let w1 = (case reconnectTimer w of
                  Some t \<Rightarrow> (clearTimeout t w)\<lparr>reconnectTimer := None\<rparr>
                | None \<Rightarrow> w);
          w2 = (case ws w1 of
                  Some s \<Rightarrow> (ws_close s w1)\<lparr>ws := None\<rparr>
                | None \<Rightarrow> w1)
     in w2\<lparr>state := disconnected\<rparr>)"
  have d: "disconnect w = (reject_all (pendingRequests w3) w3)\<lparr>pendingRequests := []\<rparr>"
    by (simp add: disconnect_def w3_def Let_def)
  have "ids_ok (case ws w1 of Some s \<Rightarrow> (ws_close s w1)\<lparr>ws := None\<rparr> | None \<Rightarrow> w1)"
    if "ids_ok w1" for w1
    using that
    by (auto simp: ws_close_def split: option.split ready_state.split
        intro!: ids_ok_ws ids_ok_set_ready_state)
  then have ok3: "ids_ok w3"
    unfolding w3_def Let_def
    by (intro ids_ok_state) (simp add: ids_ok_clear_reconnect ok)
  let ?w4 = "reject_all (pendingRequests w3) w3"
  have called: "fst ` set (settle_calls ?w4) =
      fst ` set (settle_calls w3) \<union> fst ` set (pendingRequests w3)"
    using arg_cong [OF reject_all_called [of "pendingRequests w3" w3], of set] by simp
  show ?thesis
    unfolding d
  proof (rule ids_okI)
    have "distinct (map fst (settle_calls w3) @ map fst (pendingRequests w3))"
      using ids_ok_distinct [OF ok3] sorted_keys_distinct [OF ids_ok_sorted [OF ok3]]
        ids_ok_called_gone [OF ok3]
      by auto
    then show "distinct (map fst (settle_calls (?w4\<lparr>pendingRequests := []\<rparr>)))"
      by (simp add: reject_all_called)
  next
    fix i assume "i \<in> fst ` set (settle_calls (?w4\<lparr>pendingRequests := []\<rparr>))"
    then have "i \<in> fst ` set (settle_calls w3) \<or> i \<in> fst ` set (pendingRequests w3)"
      using called by simp
    then show "i \<le> requestId (?w4\<lparr>pendingRequests := []\<rparr>)"
      using ids_ok_called [OF ok3] ids_ok_keys [OF ok3] by auto
  next
    fix t i m p d
    assume "(t, RequestTimeout i m p, d) \<in> set (timers (?w4\<lparr>pendingRequests := []\<rparr>))"
    then have live: "(t, RequestTimeout i m p, d) \<in> set (timers ?w4)" by simp
    with reject_all_timers_subset have live3: "(t, RequestTimeout i m p, d) \<in> set (timers w3)"
      by blast
    show "i \<le> requestId (?w4\<lparr>pendingRequests := []\<rparr>)"
      using ids_ok_timer(1) [OF ok3 live3] by simp
    have "i \<notin> fst ` set (pendingRequests w3)"
    proof
      assume "i \<in> fst ` set (pendingRequests w3)"
      then obtain e where e: "(i, e) \<in> set (pendingRequests w3)" by force
      from ids_ok_timer(3) [OF ok3 live3 e] e
      have "(i, FromRequest t p) \<in> set (pendingRequests w3)" by simp
      from reject_all_timers_gone [OF this] have "t \<notin> fst ` set (timers ?w4)" .
      with live show False by force
    qed
    with ids_ok_timer(2) [OF ok3 live3]
    show "i \<notin> fst ` set (settle_calls (?w4\<lparr>pendingRequests := []\<rparr>))"
      using called by simp
    show "t' = t"
      if "(t', RequestTimeout i m' p', d') \<in> set (timers (?w4\<lparr>pendingRequests := []\<rparr>))"
      for t' m' p' d'
    proof -
      from that have "(t', RequestTimeout i m' p', d') \<in> set (timers ?w4)" by simp
      with reject_all_timers_subset have "(t', RequestTimeout i m' p', d') \<in> set (timers w3)"
        by blast
      then show ?thesis by (rule ids_ok_timer(4) [OF ok3 live3])
    qed
  qed simp_all
qed

subsection \<open>Every history keeps the id invariant\<close>

lemma ids_ok_constructor: "ids_ok (constructor opts)"
  by (rule ids_okI) (simp_all add: constructor_def)

lemma ids_ok_step: "ids_ok w \<Longrightarrow> ids_ok (step ev w)"
  by (cases ev)
    (simp_all add: ids_ok_connect ids_ok_disconnect ids_ok_request ids_ok_batch ids_ok_open_event
      ids_ok_message_event ids_ok_close_event ids_ok_error_event ids_ok_timer_fire)

lemma ids_ok_run: "ids_ok w \<Longrightarrow> ids_ok (run evs w)"
  by (induction evs arbitrary: w) (simp_all add: ids_ok_step)

subsection \<open>\<open>requestId\<close> never decreases\<close>

lemma requestId_handleSingleMessage:
  "requestId (outcome (handleSingleMessage message w)) = requestId w"
  by (cases message w rule: handleSingleMessage_cases) (simp_all add: console_warn_def)

lemma requestId_handle_items: "requestId (snd (handle_items items w)) = requestId w"
proof (induction items arbitrary: w)
  case Nil
  show ?case by simp
next
  case (Cons item items)
  show ?case
    using requestId_handleSingleMessage [of item w]
    by (auto simp: Cons.IH split: sum.split)
qed

lemma requestId_handleMessage: "requestId (handleMessage data w) = requestId w"
proof (cases data)
  case None
  then show ?thesis by (simp add: handleMessage_unparsable console_error_def)
next
  case (Some message)
  show ?thesis
  proof (cases "\<exists>items. message = JArr items")
    case True
    then show ?thesis
      by (auto simp: Some handleMessage_array requestId_handle_items console_error_def
          split: option.split)
  next
    case False
    then show ?thesis
      using requestId_handleSingleMessage [of message w]
      by (auto simp: Some handleMessage_single console_error_def split: sum.split)
  qed
qed

lemma requestId_run_cont: "requestId w \<le> requestId (run_cont k w)"
  by (cases k) (simp_all add: request_body_ids batch_body_ids)

lemma requestId_fail_cont: "requestId (fail_cont k e w) = requestId w"
  by (cases k) (simp_all add: console_error_def)

lemma requestId_connect: "requestId w \<le> requestId (connect k w)"
  by (simp add: connect_def Let_def requestId_run_cont)

lemma requestId_set_ready_state: "requestId (set_ready_state s r w) = requestId w"
  by (simp add: set_ready_state_def split: option.split)

lemma requestId_resolve_opened: "requestId w \<le> requestId (resolve_opened s w)"
  using requestId_run_cont [of "w\<lparr>sockets := x\<rparr>" for x]
  by (auto simp: resolve_opened_def split: option.split)

lemma requestId_reject_opened: "requestId (reject_opened s e w) = requestId w"
  by (simp add: reject_opened_def requestId_fail_cont split: option.split)

lemma requestId_ws_onopen: "requestId w \<le> requestId (ws_onopen s w)"
proof -
  have "requestId (case reconnectTimer (w\<lparr>state := connected\<rparr>) of
                  Some t \<Rightarrow> (clearTimeout t (w\<lparr>state := connected\<rparr>))\<lparr>reconnectTimer := None\<rparr>
                | None \<Rightarrow> w\<lparr>state := connected\<rparr>) = requestId w"
    by (simp split: option.split)
  with requestId_resolve_opened show ?thesis
    unfolding ws_onopen_def Let_def by metis
qed

lemma requestId_ws_onclose: "requestId (ws_onclose w) = requestId w"
  by (simp add: ws_onclose_def handleDisconnect_def setTimeout_def)

lemma requestId_ws_onerror: "requestId (ws_onerror s w) = requestId w"
  by (simp add: ws_onerror_def requestId_reject_opened)

lemma requestId_disconnect: "requestId (disconnect w) = requestId w"
  by (simp add: disconnect_def Let_def ws_close_def requestId_set_ready_state
      split: option.split ready_state.split)

lemma requestId_timer_fire: "requestId w \<le> requestId (timer_fire t w)"
proof -
  have "requestId w \<le> requestId (connect CatchReconnect (console_log s (clearTimeout t w)))" for s
    using requestId_connect [of "console_log s (clearTimeout t w)" CatchReconnect]
    by (simp add: console_log_def)
  then show ?thesis
    by (simp add: timer_fire_def Let_def split: option.split timer_task.split)
qed

lemma requestId_step: "requestId w \<le> requestId (step ev w)"
proof (cases ev)
  case CallConnect
  then show ?thesis by (simp add: requestId_connect)
next
  case CallDisconnect
  then show ?thesis by (simp add: requestId_disconnect)
next
  case (CallRequest m ps)
  have "requestId (snd (new_promise w)) \<le> requestId (connect k (snd (new_promise w)))" for k
    by (rule requestId_connect)
  then show ?thesis
    by (simp add: CallRequest request_def split_beta Let_def request_body_ids)
next
  case (CallBatch rs)
  have "requestId (snd (new_promise w)) \<le> requestId (connect k (snd (new_promise w)))" for k
    by (rule requestId_connect)
  then show ?thesis
    by (simp add: CallBatch batch_def split_beta Let_def batch_body_ids)
next
  case (SocketOpen s)
  have "requestId (set_ready_state s OPEN w) \<le> requestId (ws_onopen s (set_ready_state s OPEN w))"
    by (rule requestId_ws_onopen)
  then show ?thesis
    by (simp add: SocketOpen open_event_def requestId_set_ready_state)
next
  case (SocketMessage s data)
  then show ?thesis by (simp add: message_event_def requestId_handleMessage)
next
  case (SocketClose s)
  then show ?thesis
    by (simp add: close_event_def requestId_ws_onclose requestId_set_ready_state)
next
  case (SocketError s)
  then show ?thesis
    by (simp add: error_event_def requestId_ws_onclose requestId_ws_onerror
        requestId_set_ready_state)
next
  case (TimerFire t)
  then show ?thesis by (simp add: requestId_timer_fire)
qed


text \<open>
  C8. After every history the keys of \<^verbatim>\<open>pendingRequests\<close> are in strictly
  increasing order, so pairwise distinct, and none exceeds \<open>requestId\<close>.
  \<^verbatim>\<open>request\<close> assigns the id \<open>requestId + 1\<close> and stores its entry under it,
  \<^verbatim>\<open>batch\<close> assigns the ids \<open>requestId + 1\<close>, \<open>requestId + 2\<close>, and so on to
  its elements in their order; both leave \<open>requestId\<close> at the last id assigned, and no
  event ever decreases \<open>requestId\<close>. So an id that is assigned is greater than every
  id assigned before it and than every key in \<^verbatim>\<open>pendingRequests\<close> at that moment.
\<close>

theorem request_ids_strictly_increase:
  "sorted_wrt (<) (map fst (pendingRequests (run evs (constructor opts)))) \<and>
   (\<forall>i \<in> fst ` set (pendingRequests (run evs (constructor opts))).
      i \<le> requestId (run evs (constructor opts))) \<and>
   requestId (request_body m ps p w) = Suc (requestId w) \<and>
   map_of (pendingRequests (request_body m ps p w)) (Suc (requestId w)) =
     Some (FromRequest (next_timer w) p) \<and>
   map req_id (fst (assign_ids requests (requestId w))) =
     [Suc (requestId w) ..< Suc (requestId w + length requests)] \<and>
   requestId (batch_body requests p w) = requestId w + length requests \<and>
   requestId w \<le> requestId (step ev w)"
proof -
  have "ids_ok (run evs (constructor opts))"
    by (rule ids_ok_run) (rule ids_ok_constructor)
  then have "sorted_wrt (<) (map fst (pendingRequests (run evs (constructor opts))))"
    and "\<forall>i \<in> fst ` set (pendingRequests (run evs (constructor opts))).
           i \<le> requestId (run evs (constructor opts))"
    by (simp_all add: ids_ok_sorted ids_ok_keys)
  then show ?thesis
    by (simp add: request_body_ids batch_body_ids assign_ids_ids requestId_step update_conv'
        del: upt_Suc)
qed

text \<open>
  C6. After every history no request id occurs twice among the calls of the
  \<^verbatim>\<open>resolve\<close> and \<^verbatim>\<open>reject\<close> functions of the pending requests. A response
  leaves no entry under its id, whether it found one or not; and a response whose id
  finds no entry only logs the warning: no promise is settled, nothing is thrown.
\<close>

theorem settled_at_most_once:
  "distinct (map fst (settle_calls (run evs (constructor opts)))) \<and>
   (map_of kv ''id'' = Some v \<longrightarrow>
      (\<forall>w'. handleSingleMessage (JObj kv) w = Inr w' \<longrightarrow> pending_get w' v = None) \<and>
      (pending_get w v = None \<longrightarrow>
         handleSingleMessage (JObj kv) w =
           Inr (w\<lparr>console := console w @ [Warn ''Received response for unknown request:'' v]\<rparr>) \<and>
         handleMessage (Some (JObj kv)) w =
           w\<lparr>console := console w @ [Warn ''Received response for unknown request:'' v]\<rparr>))"
proof -
  have "ids_ok (run evs (constructor opts))"
    by (rule ids_ok_run) (rule ids_ok_constructor)
  then have once: "distinct (map fst (settle_calls (run evs (constructor opts))))"
    by (rule ids_ok_distinct)
  have gone: "pending_get w' v = None"
    if "map_of kv ''id'' = Some v" and "handleSingleMessage (JObj kv) w = Inr w'" for w'
  proof (cases "pending_get w v")
    case None
    with that have "pendingRequests w' = pendingRequests w"
      by (auto simp: handleSingleMessage_def console_warn_def)
    with None show ?thesis
      by (auto simp: pending_get_def split: option.splits)
  next
    case (Some ie)
    obtain i e where ie: "ie = (i, e)" by (cases ie)
    from Some have i: "map_key v = Some i"
      by (auto simp: pending_get_def ie split: option.splits)
    from that Some have "pendingRequests w' = AList.delete i (pendingRequests w)"
      by (auto simp: handleSingleMessage_def ie Let_def split: if_splits sum.splits)
    then show ?thesis
      by (simp add: pending_get_def i delete_conv')
  qed
  have noop: "handleSingleMessage (JObj kv) w =
      Inr (w\<lparr>console := console w @ [Warn ''Received response for unknown request:'' v]\<rparr>)"
    if "map_of kv ''id'' = Some v" and "pending_get w v = None"
    using that by (simp add: handleSingleMessage_def console_warn_def)
  from once gone noop show ?thesis
    by (simp add: handleMessage_def)
qed

theorem request_ids_strictly_increase_witness:
  "map fst (pendingRequests three_outstanding) = [1, 2, 3] \<and>
   requestId three_outstanding = 3 \<and>
   requestId (request_body ''api_ping'' (JObj []) 4 three_outstanding) = 4 \<and>
   map_of (pendingRequests (request_body ''api_ping'' (JObj []) 4 three_outstanding)) 4 =
     Some (FromRequest 3 4) \<and>
   map req_id (fst (assign_ids [(''setup_get'', JObj [(''path'', JStr ''/a'')]),
                                (''setup_get'', JObj [(''path'', JStr ''/b'')])]
                      (requestId three_outstanding))) = [4, 5] \<and>
   requestId (batch_body [(''setup_get'', JObj [(''path'', JStr ''/a'')]),
                          (''setup_get'', JObj [(''path'', JStr ''/b'')])] 4 three_outstanding) = 5 \<and>
   requestId (step CallDisconnect three_outstanding) = 3"
  using request_ids_strictly_increase
    [where evs = "[CallConnect, SocketOpen 0,
          CallRequest ''api_ping'' (JObj []),
          CallRequest ''api_version'' (JObj []),
          CallBatch [(''setup_get'', JObj [(''path'', JStr ''/audio/output/speaker/1'')])]]"
      and opts = default_options and m = "''api_ping''" and ps = "JObj []" and p = 4
      and w = three_outstanding
      and requests = "[(''setup_get'', JObj [(''path'', JStr ''/a'')]),
                       (''setup_get'', JObj [(''path'', JStr ''/b'')])]"
      and ev = CallDisconnect]
  unfolding three_outstanding_def [symmetric]
  by (simp add: three_outstanding_eq world_defs)

theorem settled_at_most_once_witness:
  "settle_calls (run [CallConnect, SocketOpen 0, CallRequest ''api_ping'' (JObj []),
       SocketMessage 0 (Some (JObj [(''jsonrpc'', JStr ''2.0''), (''id'', JNum 1), (''result'', JStr ''pong'')])),
       SocketMessage 0 (Some (JObj [(''jsonrpc'', JStr ''2.0''), (''id'', JNum 1), (''result'', JStr ''pong'')])),
       TimerFire 1]
     (constructor default_options)) = [(1, Fulfilled (JStr ''pong''))] \<and>
   promises (run [CallConnect, SocketOpen 0, CallRequest ''api_ping'' (JObj []),
       SocketMessage 0 (Some (JObj [(''jsonrpc'', JStr ''2.0''), (''id'', JNum 1), (''result'', JStr ''pong'')])),
       SocketMessage 0 (Some (JObj [(''jsonrpc'', JStr ''2.0''), (''id'', JNum 1), (''result'', JStr ''pong'')])),
       TimerFire 1]
     (constructor default_options)) = [(0, Fulfilled (JStr ''pong''))] \<and>
   map_of [(''jsonrpc'', JStr ''2.0''), (''id'', JNum 7), (''result'', JStr ''late'')] ''id'' = Some (JNum 7) \<and>
   pending_get three_outstanding (JNum 7) = None \<and>
   handleMessage (Some (JObj [(''jsonrpc'', JStr ''2.0''), (''id'', JNum 7), (''result'', JStr ''late'')]))
     three_outstanding =
   three_outstanding\<lparr>console := [Warn ''Received response for unknown request:'' (JNum 7)]\<rparr>"
  using settled_at_most_once
    [where evs = "[CallConnect, SocketOpen 0, CallRequest ''api_ping'' (JObj []),
       SocketMessage 0 (Some (JObj [(''jsonrpc'', JStr ''2.0''), (''id'', JNum 1), (''result'', JStr ''pong'')])),
       SocketMessage 0 (Some (JObj [(''jsonrpc'', JStr ''2.0''), (''id'', JNum 1), (''result'', JStr ''pong'')])),
       TimerFire 1]"
      and opts = default_options
      and kv = "[(''jsonrpc'', JStr ''2.0''), (''id'', JNum 7), (''result'', JStr ''late'')]"
      and v = "JNum 7" and w = three_outstanding]
  by (simp add: three_outstanding_eq world_defs)

subsection \<open>\<open>Promise.all\<close>\<close>

lemma all_result_cong:
  "(\<And>e. e \<in> set es \<Longrightarrow> map_of ps' e = map_of ps e) \<Longrightarrow> all_result ps' es = all_result ps es"
  by (induction es) (auto split: option.splits promise_state.splits)

lemma first_rejected_cong:
  "(\<And>e. e \<in> set es \<Longrightarrow> map_of ps' e = map_of ps e) \<Longrightarrow>
   first_rejected ps' es = first_rejected ps es"
  by (induction es) (auto split: option.splits promise_state.splits)

lemma all_result_SomeD:
  "all_result ps es = Some vs \<Longrightarrow> e \<in> set es \<Longrightarrow> \<exists>v. map_of ps e = Some (Fulfilled v)"
  by (induction es arbitrary: vs) (auto split: option.splits promise_state.splits)

lemma all_result_Some_map:
  "all_result ps es = Some vs \<longleftrightarrow> map (map_of ps) es = map (\<lambda>v. Some (Fulfilled v)) vs"
  by (induction es arbitrary: vs) (auto split: option.splits promise_state.splits)

lemma all_result_NoneI:
  "e \<in> set es \<Longrightarrow> \<forall>v. map_of ps e \<noteq> Some (Fulfilled v) \<Longrightarrow> all_result ps es = None"
  by (induction es) (auto split: option.splits promise_state.splits)

lemma first_rejected_None_iff:
  "first_rejected ps es = None \<longleftrightarrow> (\<forall>e \<in> set es. \<forall>r. map_of ps e \<noteq> Some (Rejected r))"
  by (induction es) (auto split: option.splits promise_state.splits)

lemma first_rejected_SomeD:
  "first_rejected ps es = Some r \<Longrightarrow> \<exists>e \<in> set es. map_of ps e = Some (Rejected r)"
  by (induction es) (auto split: option.splits promise_state.splits)

lemma fan_in_ok_cong:
  assumes "map_of ps' c = map_of ps c"
    and "\<And>e. e \<in> set es \<Longrightarrow> map_of ps' e = map_of ps e"
  shows "fan_in_ok ps' c es = fan_in_ok ps c es"
proof -
  have "map (map_of ps') es = map (map_of ps) es"
    using assms(2) by simp
  then show ?thesis
    by (simp add: fan_in_ok_def assms(1) all_result_cong [of es ps' ps, OF assms(2)]
      first_rejected_cong [of es ps' ps, OF assms(2)]
      cong: option.case_cong promise_state.case_cong)
qed

text \<open>The reactions change the results of the combinations they run through, nothing else.\<close>

lemma all_on_fulfil_other:
  "q \<notin> fst ` set cs \<Longrightarrow> map_of (promises (all_on_fulfil p cs w)) q = map_of (promises w) q"
  by (induction p cs w rule: all_on_fulfil.induct) (auto split: option.split)

lemma all_on_reject_other:
  "q \<notin> fst ` set cs \<Longrightarrow> map_of (promises (all_on_reject p e cs w)) q = map_of (promises w) q"
  by (induction p e cs w rule: all_on_reject.induct) auto

lemma all_on_fulfil_at:
  assumes "distinct (map fst cs)" and "(c, es) \<in> set cs" and "fst ` set cs \<inter> set es = {}"
  shows "map_of (promises (all_on_fulfil p cs w)) c =
         (if p \<in> set es \<and> map_of (promises w) c = Some Pending
          then (case all_result (promises w) es of
                  Some vs \<Rightarrow> Some (Fulfilled (JArr vs))
                | None \<Rightarrow> Some Pending)
          else map_of (promises w) c)"
  using assms
proof (induction cs arbitrary: w)
  case Nil
  then show ?case by simp
next
  case (Cons a cs)
  obtain c0 es0 where a: "a = (c0, es0)" by (cases a)
  let ?w = "if p \<in> set es0 \<and> map_of (promises w) c0 = Some Pending
        then (case all_result (promises w) es0 of
                Some vs \<Rightarrow> set_promise c0 (Fulfilled (JArr vs)) w
              | None \<Rightarrow> w)
        else w"
  have step: "all_on_fulfil p (a # cs) w = all_on_fulfil p cs ?w"
    by (simp add: a)
  show ?case
  proof (cases "(c, es) = (c0, es0)")
    case True
    with Cons.prems(1) have "c \<notin> fst ` set cs" by (simp add: a)
    then have "map_of (promises (all_on_fulfil p cs ?w)) c = map_of (promises ?w) c"
      by (rule all_on_fulfil_other)
    with True show ?thesis
      unfolding step by (auto split: option.split)
  next
    case False
    with Cons.prems(2) have in_cs: "(c, es) \<in> set cs" by (auto simp: a)
    with Cons.prems(1) have "c \<noteq> c0" by (force simp: a)
    moreover from Cons.prems(3) have "c0 \<notin> set es" by (auto simp: a)
    ultimately have same: "map_of (promises ?w) c = map_of (promises w) c"
      "\<And>e. e \<in> set es \<Longrightarrow> map_of (promises ?w) e = map_of (promises w) e"
      by (auto split: option.split)
    have "map_of (promises (all_on_fulfil p cs ?w)) c =
         (if p \<in> set es \<and> map_of (promises ?w) c = Some Pending
          then (case all_result (promises ?w) es of
                  Some vs \<Rightarrow> Some (Fulfilled (JArr vs))
                | None \<Rightarrow> Some Pending)
          else map_of (promises ?w) c)"
      using Cons.prems(1,3) in_cs by (intro Cons.IH) (auto simp: a)
    also have "all_result (promises ?w) es = all_result (promises w) es"
      by (rule all_result_cong) (rule same(2))
    finally show ?thesis
      unfolding step same(1) .
  qed
qed

lemma all_on_reject_at:
  assumes "distinct (map fst cs)" and "(c, es) \<in> set cs"
  shows "map_of (promises (all_on_reject p e cs w)) c =
         (if p \<in> set es \<and> map_of (promises w) c = Some Pending
          then Some (Rejected e)
          else map_of (promises w) c)"
  using assms
proof (induction cs arbitrary: w)
  case Nil
  then show ?case by simp
next
  case (Cons a cs)
  obtain c0 es0 where a: "a = (c0, es0)" by (cases a)
  let ?w = "if p \<in> set es0 \<and> map_of (promises w) c0 = Some Pending
        then set_promise c0 (Rejected e) w
        else w"
  have step: "all_on_reject p e (a # cs) w = all_on_reject p e cs ?w"
    by (simp add: a)
  show ?case
  proof (cases "(c, es) = (c0, es0)")
    case True
    with Cons.prems(1) have "c \<notin> fst ` set cs" by (simp add: a)
    then have "map_of (promises (all_on_reject p e cs ?w)) c = map_of (promises ?w) c"
      by (rule all_on_reject_other)
    with True show ?thesis
      unfolding step by auto
  next
    case False
    with Cons.prems(2) have in_cs: "(c, es) \<in> set cs" by (auto simp: a)
    with Cons.prems(1) have "c \<noteq> c0" by (force simp: a)
    then have same: "map_of (promises ?w) c = map_of (promises w) c"
      by auto
    have "map_of (promises (all_on_reject p e cs ?w)) c =
         (if p \<in> set es \<and> map_of (promises ?w) c = Some Pending
          then Some (Rejected e)
          else map_of (promises ?w) c)"
      using Cons.prems(1) in_cs by (intro Cons.IH) (auto simp: a)
    then show ?thesis
      unfolding step same .
  qed
qed

lemma in_elements: "(c, es) \<in> set (alls w) \<Longrightarrow> e \<in> set es \<Longrightarrow> e \<in> elements w"
  by (force simp: elements_def)

lemma in_combined: "(c, es) \<in> set (alls w) \<Longrightarrow> c \<in> combined w"
  by (force simp: combined_def)

lemma rejected_in_map:
  "Some (Rejected r) \<in> set (map (map_of ps) es) \<longleftrightarrow> (\<exists>x \<in> set es. map_of ps x = Some (Rejected r))"
  by (auto simp: image_iff) (metis)

text \<open>
  Settling a promise that is not the result of a combination keeps every combination as
  \<^verbatim>\<open>Promise.all\<close> promises.
\<close>

lemma fan_in_resolve:
  assumes F: "\<And>c es. (c, es) \<in> set (alls w) \<Longrightarrow> fan_in_ok (promises w) c es"
    and D: "distinct (map fst (alls w))"
    and X: "combined w \<inter> elements w = {}"
    and P: "p \<notin> combined w"
    and M: "(c, es) \<in> set (alls w)"
  shows "fan_in_ok (promises (resolve_promise p v w)) c es"
proof (cases "map_of (promises w) p = Some Pending")
  case False
  then show ?thesis
    using F [OF M] by (simp add: resolve_promise_def)
next
  case True
  let ?w1 = "set_promise p (Fulfilled v) w"
  let ?ps = "promises w"
  let ?ps1 = "promises ?w1"
  let ?ps2 = "promises (all_on_fulfil p (alls w) ?w1)"
  have res: "promises (resolve_promise p v w) = ?ps2"
    using True by (simp add: resolve_promise_def)
  have cp: "c \<noteq> p"
    using P in_combined [OF M] by blast
  have disj: "fst ` set (alls w) \<inter> set es = {}"
    using X in_elements [OF M] by (auto simp: combined_def)
  have c2: "map_of ?ps2 c =
      (if p \<in> set es \<and> map_of ?ps c = Some Pending
       then (case all_result ?ps1 es of
               Some vs \<Rightarrow> Some (Fulfilled (JArr vs))
             | None \<Rightarrow> Some Pending)
       else map_of ?ps c)"
    using all_on_fulfil_at [OF D M disj, of p ?w1] cp by simp
  have e2: "map_of ?ps2 e = map_of ?ps1 e" if "e \<in> set es" for e
    using disj that by (intro all_on_fulfil_other) auto
  have e1: "map_of ?ps1 e = (if e = p then Some (Fulfilled v) else map_of ?ps e)" for e
    by simp
  have all2: "all_result ?ps2 es = all_result ?ps1 es"
    by (rule all_result_cong) (rule e2)
  have rej2: "first_rejected ?ps2 es = first_rejected ?ps1 es"
    by (rule first_rejected_cong) (rule e2)
  have map2: "map (map_of ?ps2) es = map (map_of ?ps1) es"
    using e2 by simp
  show ?thesis
  proof (cases "p \<in> set es")
    case False
    have "fan_in_ok ?ps2 c es = fan_in_ok ?ps c es"
    proof (rule fan_in_ok_cong)
      show "map_of ?ps2 c = map_of ?ps c"
        using False by (simp add: c2)
      show "map_of ?ps2 e = map_of ?ps e" if "e \<in> set es" for e
      proof -
        from that False have "e \<noteq> p" by blast
        then show ?thesis by (simp add: e2 [OF that])
      qed
    qed
    with F [OF M] show ?thesis by (simp add: res)
  next
    case pin: True
    have no_rej1: "first_rejected ?ps1 es = None" if "first_rejected ?ps es = None"
      using that by (auto simp: first_rejected_None_iff)
    show ?thesis
    proof (cases "map_of ?ps c")
      case None
      with F [OF M] show ?thesis by (simp add: fan_in_ok_def)
    next
      case (Some st)
      show ?thesis
      proof (cases st)
        case Pending
        with Some F [OF M] have old: "first_rejected ?ps es = None"
          by (simp add: fan_in_ok_def)
        show ?thesis
          unfolding res fan_in_ok_def c2 all2 rej2
          using pin Some Pending no_rej1 [OF old]
          by (auto split: option.split)
      next
        case (Fulfilled v0)
        with Some F [OF M] obtain vs where "all_result ?ps es = Some vs"
          by (auto simp: fan_in_ok_def)
        from all_result_SomeD [OF this pin] True show ?thesis by simp
      next
        case (Rejected r)
        with Some F [OF M] obtain x where x: "x \<in> set es" "map_of ?ps x = Some (Rejected r)"
          by (auto simp: fan_in_ok_def)
        with True have "x \<noteq> p" by auto
        with x have "\<exists>x \<in> set es. map_of ?ps1 x = Some (Rejected r)"
          by (auto simp: e1 simp del: set_promise_fields)
        then have "Some (Rejected r) \<in> set (map (map_of ?ps1) es)"
          by (simp only: rejected_in_map)
        then show ?thesis
          unfolding res fan_in_ok_def c2 map2
          using Some Rejected by simp
      qed
    qed
  qed
qed

lemma fan_in_reject:
  assumes F: "\<And>c es. (c, es) \<in> set (alls w) \<Longrightarrow> fan_in_ok (promises w) c es"
    and D: "distinct (map fst (alls w))"
    and X: "combined w \<inter> elements w = {}"
    and P: "p \<notin> combined w"
    and M: "(c, es) \<in> set (alls w)"
  shows "fan_in_ok (promises (reject_promise p r w)) c es"
proof (cases "map_of (promises w) p = Some Pending")
  case False
  then show ?thesis
    using F [OF M] by (simp add: reject_promise_def)
next
  case True
  let ?w1 = "set_promise p (Rejected r) w"
  let ?ps = "promises w"
  let ?ps1 = "promises ?w1"
  let ?ps2 = "promises (all_on_reject p r (alls w) ?w1)"
  have res: "promises (reject_promise p r w) = ?ps2"
    using True by (simp add: reject_promise_def)
  have cp: "c \<noteq> p"
    using P in_combined [OF M] by blast
  have disj: "fst ` set (alls w) \<inter> set es = {}"
    using X in_elements [OF M] by (auto simp: combined_def)
  have c2: "map_of ?ps2 c =
      (if p \<in> set es \<and> map_of ?ps c = Some Pending
       then Some (Rejected r)
       else map_of ?ps c)"
    using all_on_reject_at [OF D M, of p r ?w1] cp by simp
  have e2: "map_of ?ps2 e = map_of ?ps1 e" if "e \<in> set es" for e
    using disj that by (intro all_on_reject_other) auto
  have e1: "map_of ?ps1 e = (if e = p then Some (Rejected r) else map_of ?ps e)" for e
    by simp
  have all2: "all_result ?ps2 es = all_result ?ps1 es"
    by (rule all_result_cong) (rule e2)
  have rej2: "first_rejected ?ps2 es = first_rejected ?ps1 es"
    by (rule first_rejected_cong) (rule e2)
  have map2: "map (map_of ?ps2) es = map (map_of ?ps1) es"
    using e2 by simp
  show ?thesis
  proof (cases "p \<in> set es")
    case False
    have "fan_in_ok ?ps2 c es = fan_in_ok ?ps c es"
    proof (rule fan_in_ok_cong)
      show "map_of ?ps2 c = map_of ?ps c"
        using False by (simp add: c2)
      show "map_of ?ps2 e = map_of ?ps e" if "e \<in> set es" for e
      proof -
        from that False have "e \<noteq> p" by blast
        then show ?thesis by (simp add: e2 [OF that])
      qed
    qed
    with F [OF M] show ?thesis by (simp add: res)
  next
    case pin: True
    have p1: "Some (Rejected r) \<in> set (map (map_of ?ps1) es)"
      unfolding rejected_in_map using pin by (auto simp del: set_promise_fields simp: e1)
    show ?thesis
    proof (cases "map_of ?ps c")
      case None
      with F [OF M] show ?thesis by (simp add: fan_in_ok_def)
    next
      case (Some st)
      show ?thesis
      proof (cases st)
        case Pending
        show ?thesis
          unfolding res fan_in_ok_def c2 map2
          using pin Some Pending p1 by simp
      next
        case (Fulfilled v0)
        with Some F [OF M] obtain vs where "all_result ?ps es = Some vs"
          by (auto simp: fan_in_ok_def)
        from all_result_SomeD [OF this pin] True show ?thesis by simp
      next
        case (Rejected r0)
        with Some F [OF M] obtain x where x: "x \<in> set es" "map_of ?ps x = Some (Rejected r0)"
          by (auto simp: fan_in_ok_def rejected_in_map)
        with True have "x \<noteq> p" by auto
        with x have "\<exists>x \<in> set es. map_of ?ps1 x = Some (Rejected r0)"
          by (auto simp: e1 simp del: set_promise_fields)
        then have "Some (Rejected r0) \<in> set (map (map_of ?ps1) es)"
          by (simp only: rejected_in_map)
        then show ?thesis
          unfolding res fan_in_ok_def c2 map2
          using Some Rejected by simp
      qed
    qed
  qed
qed

text \<open>Settling \<open>p\<close> changes \<open>p\<close> and results of combinations, nothing else.\<close>

lemma resolve_promise_unrelated:
  "q \<noteq> p \<Longrightarrow> q \<notin> combined w \<Longrightarrow>
   map_of (promises (resolve_promise p v w)) q = map_of (promises w) q"
  by (simp add: resolve_promise_def all_on_fulfil_other combined_def)

lemma reject_promise_unrelated:
  "q \<noteq> p \<Longrightarrow> q \<notin> combined w \<Longrightarrow>
   map_of (promises (reject_promise p e w)) q = map_of (promises w) q"
  by (simp add: reject_promise_def all_on_reject_other combined_def)

subsection \<open>The invariant of the promises\<close>

lemmas views_def =
  entry_promises_def timer_promises_def combined_def elements_def owned_def awaited_def

lemma promises_okI:
  assumes "\<And>c es. (c, es) \<in> set (alls w) \<Longrightarrow> fan_in_ok (promises w) c es"
    and "distinct (map fst (alls w))"
    and "combined w \<inter> (elements w \<union> entry_promises w \<union> timer_promises w) = {}"
    and "\<And>p. p \<in> owned w \<Longrightarrow> p < next_promise w"
    and "\<And>s p. awaited w s = Some p \<Longrightarrow> p < next_promise w"
    and "\<And>s p. awaited w s = Some p \<Longrightarrow> map_of (promises w) p = Some Pending"
    and "\<And>s p. awaited w s = Some p \<Longrightarrow> p \<notin> owned w"
    and "\<And>s s' p. awaited w s = Some p \<Longrightarrow> awaited w s' = Some p \<Longrightarrow> s' = s"
  shows "promises_ok w"
proof -
  have "\<forall>(c, es) \<in> set (alls w). fan_in_ok (promises w) c es"
    using assms(1) by blast
  moreover have "\<forall>p \<in> owned w. p < next_promise w"
    using assms(4) by blast
  moreover have "\<forall>s p. awaited w s = Some p \<longrightarrow>
        p < next_promise w \<and> map_of (promises w) p = Some Pending \<and> p \<notin> owned w \<and>
        (\<forall>s'. awaited w s' = Some p \<longrightarrow> s' = s)"
    using assms(5,6,7,8) by blast
  ultimately show ?thesis
    unfolding promises_ok_def using assms(2,3) by (intro conjI)
qed

lemma promises_ok_fan:
  assumes "promises_ok w" and "(c, es) \<in> set (alls w)"
  shows "fan_in_ok (promises w) c es"
proof -
  from assms(1) have "\<forall>(c, es) \<in> set (alls w). fan_in_ok (promises w) c es"
    unfolding promises_ok_def by (elim conjE)
  from bspec [OF this assms(2)] show ?thesis by simp
qed

lemma promises_ok_distinct: "promises_ok w \<Longrightarrow> distinct (map fst (alls w))"
  unfolding promises_ok_def by (elim conjE)

lemma promises_ok_disjoint:
  "promises_ok w \<Longrightarrow> combined w \<inter> (elements w \<union> entry_promises w \<union> timer_promises w) = {}"
  unfolding promises_ok_def by (elim conjE)

lemma promises_ok_bound: "promises_ok w \<Longrightarrow> p \<in> owned w \<Longrightarrow> p < next_promise w"
  unfolding promises_ok_def by (elim conjE) (erule bspec)

lemma promises_ok_awaited:
  assumes "promises_ok w" and "awaited w s = Some p"
  shows "p < next_promise w" "map_of (promises w) p = Some Pending" "p \<notin> owned w"
    "\<And>s'. awaited w s' = Some p \<Longrightarrow> s' = s"
proof -
  from assms(1) have "\<forall>s p. awaited w s = Some p \<longrightarrow>
        p < next_promise w \<and> map_of (promises w) p = Some Pending \<and> p \<notin> owned w \<and>
        (\<forall>s'. awaited w s' = Some p \<longrightarrow> s' = s)"
    unfolding promises_ok_def by (elim conjE)
  with assms(2) have *: "p < next_promise w \<and> map_of (promises w) p = Some Pending \<and>
      p \<notin> owned w \<and> (\<forall>s'. awaited w s' = Some p \<longrightarrow> s' = s)"
    by blast
  from * show "p < next_promise w" by blast
  from * show "map_of (promises w) p = Some Pending" by blast
  from * show "p \<notin> owned w" by blast
  from * show "\<And>s'. awaited w s' = Some p \<Longrightarrow> s' = s" by blast
qed

lemma promises_ok_combined_elements: "promises_ok w \<Longrightarrow> combined w \<inter> elements w = {}"
  using promises_ok_disjoint [of w] by blast

lemma unownedD:
  assumes "unowned w p"
  shows "p < next_promise w" "map_of (promises w) p = Some Pending" "p \<notin> owned w"
    "awaited w s \<noteq> Some p" "p \<notin> combined w" "p \<notin> elements w"
    "p \<notin> entry_promises w" "p \<notin> timer_promises w"
  using assms by (auto simp: unowned_def owned_def)

text \<open>
  A change that leaves the promises and the combinations alone, lets awaiting calls
  finish, and lets entries and timers refer to promises of \<open>X\<close>, which nobody
  referred to.
\<close>

lemma promises_ok_frame:
  assumes ok: "promises_ok w"
    and same: "promises w' = promises w" "next_promise w' = next_promise w" "alls w' = alls w"
    and entries: "entry_promises w' \<subseteq> X \<union> entry_promises w"
    and timers: "timer_promises w' \<subseteq> X \<union> timer_promises w"
    and await: "\<And>s. awaited w' s = awaited w s \<or> awaited w' s = None"
    and X: "\<And>p. p \<in> X \<Longrightarrow> unowned w p"
  shows "promises_ok w'"
proof (rule promises_okI)
  have comb: "combined w' = combined w" and elems: "elements w' = elements w"
    by (simp_all add: combined_def elements_def same)
  have owned: "owned w' \<subseteq> X \<union> owned w"
    using entries timers unfolding owned_def comb elems by blast
  have aw: "awaited w s = Some p" if "awaited w' s = Some p" for s p
    using await [of s] that by auto
  show "fan_in_ok (promises w') c es" if "(c, es) \<in> set (alls w')" for c es
    using that promises_ok_fan [OF ok] by (simp add: same)
  show "distinct (map fst (alls w'))"
    using promises_ok_distinct [OF ok] by (simp add: same)
  show "combined w' \<inter> (elements w' \<union> entry_promises w' \<union> timer_promises w') = {}"
    using promises_ok_disjoint [OF ok] entries timers unownedD(5) [OF X]
    unfolding comb elems by blast
  show "p < next_promise w'" if "p \<in> owned w'" for p
    using that owned promises_ok_bound [OF ok] unownedD(1) [OF X] unfolding same by blast
  show "p < next_promise w'" if "awaited w' s = Some p" for s p
    using promises_ok_awaited(1) [OF ok aw [OF that]] by (simp add: same)
  show "map_of (promises w') p = Some Pending" if "awaited w' s = Some p" for s p
    using promises_ok_awaited(2) [OF ok aw [OF that]] by (simp add: same)
  show "p \<notin> owned w'" if "awaited w' s = Some p" for s p
    using promises_ok_awaited(3) [OF ok aw [OF that]] owned unownedD(4) [OF X, of p s]
      aw [OF that] by blast
  show "s' = s" if "awaited w' s = Some p" "awaited w' s' = Some p" for s s' p
    using promises_ok_awaited(4) [OF ok aw [OF that(1)] aw [OF that(2)]] .
qed

lemma promises_ok_same:
  assumes "promises_ok w"
    and "promises w' = promises w" "next_promise w' = next_promise w" "alls w' = alls w"
    and "pendingRequests w' = pendingRequests w" "timers w' = timers w" "sockets w' = sockets w"
  shows "promises_ok w'"
  using assms(1-4)
  by (rule promises_ok_frame [where X = "{}"]) (simp_all add: views_def assms(5-7))

lemma unowned_same:
  assumes "unowned w p"
    and "promises w' = promises w" "next_promise w' = next_promise w" "alls w' = alls w"
    and "pendingRequests w' = pendingRequests w" "timers w' = timers w" "sockets w' = sockets w"
  shows "unowned w' p"
  using assms(1) by (simp add: unowned_def views_def assms(2-7))

lemma promises_ok_new_promise:
  assumes ok: "promises_ok w"
  shows "promises_ok (snd (new_promise w))" and "unowned (snd (new_promise w)) (next_promise w)"
proof -
  let ?w = "snd (new_promise w)"
  have views: "combined ?w = combined w" "elements ?w = elements w"
    "entry_promises ?w = entry_promises w" "timer_promises ?w = timer_promises w"
    "owned ?w = owned w" "awaited ?w = awaited w"
    by (simp_all add: views_def fun_eq_iff)
  have old: "map_of (promises ?w) q = map_of (promises w) q" if "q < next_promise w" for q
    using that by (simp add: update_conv')
  have el: "e < next_promise w" if "(c, es) \<in> set (alls w)" "e \<in> set es" for c es e
    using promises_ok_bound [OF ok, of e] in_elements [OF that] by (simp add: owned_def)
  have co: "c < next_promise w" if "(c, es) \<in> set (alls w)" for c es
    using promises_ok_bound [OF ok, of c] in_combined [OF that] by (simp add: owned_def)
  show "promises_ok ?w"
  proof (rule promises_okI)
    show "fan_in_ok (promises ?w) c es" if "(c, es) \<in> set (alls ?w)" for c es
    proof -
      from that have m: "(c, es) \<in> set (alls w)" by simp
      have "fan_in_ok (promises ?w) c es = fan_in_ok (promises w) c es"
      proof (rule fan_in_ok_cong)
        show "map_of (promises ?w) c = map_of (promises w) c"
          by (rule old) (rule co [OF m])
        show "map_of (promises ?w) e = map_of (promises w) e" if "e \<in> set es" for e
          by (rule old) (rule el [OF m that])
      qed
      with promises_ok_fan [OF ok m] show ?thesis by simp
    qed
    show "distinct (map fst (alls ?w))"
      using promises_ok_distinct [OF ok] by simp
    show "combined ?w \<inter> (elements ?w \<union> entry_promises ?w \<union> timer_promises ?w) = {}"
      using promises_ok_disjoint [OF ok] by (simp only: views)
    show "p < next_promise ?w" if "p \<in> owned ?w" for p
      using promises_ok_bound [OF ok, of p] that by (simp add: views)
    show "p < next_promise ?w" if "awaited ?w s = Some p" for s p
      using promises_ok_awaited(1) [OF ok, of s p] that by (simp add: views)
    show "map_of (promises ?w) p = Some Pending" if "awaited ?w s = Some p" for s p
      using promises_ok_awaited(1,2) [OF ok, of s p] that by (simp add: views(6) update_conv')
    show "p \<notin> owned ?w" if "awaited ?w s = Some p" for s p
      using promises_ok_awaited(3) [OF ok, of s p] that by (simp add: views)
    show "s' = s" if "awaited ?w s = Some p" "awaited ?w s' = Some p" for s s' p
      using promises_ok_awaited(4) [OF ok, of s p s'] that by (simp add: views)
  qed
  show "unowned ?w (next_promise w)"
    unfolding unowned_def views
    using promises_ok_bound [OF ok, of "next_promise w"]
      promises_ok_awaited(1) [OF ok, of _ "next_promise w"]
    by (auto simp: update_conv')
qed

lemma unowned_new_promise:
  assumes "unowned w p"
  shows "unowned (snd (new_promise w)) p"
proof -
  let ?w = "snd (new_promise w)"
  have views: "owned ?w = owned w" "awaited ?w = awaited w"
    by (simp_all add: views_def fun_eq_iff)
  from unownedD(1) [OF assms] have "map_of (promises ?w) p = map_of (promises w) p"
    by (simp add: update_conv')
  with assms show ?thesis
    by (simp add: unowned_def views)
qed

text \<open>Settling a promise that is not the result of a combination and that no call awaits.\<close>

lemma promises_ok_reject_promise:
  assumes ok: "promises_ok w" and p: "p \<notin> combined w" "\<And>s. awaited w s \<noteq> Some p"
  shows "promises_ok (reject_promise p e w)"
proof (rule promises_okI)
  let ?w = "reject_promise p e w"
  have views: "combined ?w = combined w" "elements ?w = elements w"
    "entry_promises ?w = entry_promises w" "timer_promises ?w = timer_promises w"
    "owned ?w = owned w" "awaited ?w = awaited w"
    by (simp_all add: views_def fun_eq_iff)
  show "fan_in_ok (promises ?w) c es" if "(c, es) \<in> set (alls ?w)" for c es
    using that
    by (intro fan_in_reject promises_ok_fan [OF ok] promises_ok_distinct [OF ok]
        promises_ok_combined_elements [OF ok] p(1)) simp_all
  show "distinct (map fst (alls ?w))"
    using promises_ok_distinct [OF ok] by simp
  show "combined ?w \<inter> (elements ?w \<union> entry_promises ?w \<union> timer_promises ?w) = {}"
    using promises_ok_disjoint [OF ok] by (simp only: views)
  show "q < next_promise ?w" if "q \<in> owned ?w" for q
    using promises_ok_bound [OF ok, of q] that by (simp add: views)
  show "q < next_promise ?w" if "awaited ?w s = Some q" for s q
    using promises_ok_awaited(1) [OF ok, of s q] that by (simp add: views)
  show "map_of (promises ?w) q = Some Pending" if "awaited ?w s = Some q" for s q
  proof -
    from that have a: "awaited w s = Some q" by (simp add: views)
    with p(2) have "q \<noteq> p" by blast
    moreover from promises_ok_awaited(3) [OF ok a] have "q \<notin> combined w"
      by (simp add: owned_def)
    ultimately show ?thesis
      using promises_ok_awaited(2) [OF ok a] by (simp add: reject_promise_unrelated)
  qed
  show "q \<notin> owned ?w" if "awaited ?w s = Some q" for s q
    using promises_ok_awaited(3) [OF ok, of s q] that by (simp add: views)
  show "s' = s" if "awaited ?w s = Some q" "awaited ?w s' = Some q" for s s' q
    using promises_ok_awaited(4) [OF ok, of s q s'] that by (simp add: views)
qed

lemma promises_ok_resolve_promise:
  assumes ok: "promises_ok w" and p: "p \<notin> combined w" "\<And>s. awaited w s \<noteq> Some p"
  shows "promises_ok (resolve_promise p v w)"
proof (rule promises_okI)
  let ?w = "resolve_promise p v w"
  have views: "combined ?w = combined w" "elements ?w = elements w"
    "entry_promises ?w = entry_promises w" "timer_promises ?w = timer_promises w"
    "owned ?w = owned w" "awaited ?w = awaited w"
    by (simp_all add: views_def fun_eq_iff)
  show "fan_in_ok (promises ?w) c es" if "(c, es) \<in> set (alls ?w)" for c es
    using that
    by (intro fan_in_resolve promises_ok_fan [OF ok] promises_ok_distinct [OF ok]
        promises_ok_combined_elements [OF ok] p(1)) simp_all
  show "distinct (map fst (alls ?w))"
    using promises_ok_distinct [OF ok] by simp
  show "combined ?w \<inter> (elements ?w \<union> entry_promises ?w \<union> timer_promises ?w) = {}"
    using promises_ok_disjoint [OF ok] by (simp only: views)
  show "q < next_promise ?w" if "q \<in> owned ?w" for q
    using promises_ok_bound [OF ok, of q] that by (simp add: views)
  show "q < next_promise ?w" if "awaited ?w s = Some q" for s q
    using promises_ok_awaited(1) [OF ok, of s q] that by (simp add: views)
  show "map_of (promises ?w) q = Some Pending" if "awaited ?w s = Some q" for s q
  proof -
    from that have a: "awaited w s = Some q" by (simp add: views)
    with p(2) have "q \<noteq> p" by blast
    moreover from promises_ok_awaited(3) [OF ok a] have "q \<notin> combined w"
      by (simp add: owned_def)
    ultimately show ?thesis
      using promises_ok_awaited(2) [OF ok a] by (simp add: resolve_promise_unrelated)
  qed
  show "q \<notin> owned ?w" if "awaited ?w s = Some q" for s q
    using promises_ok_awaited(3) [OF ok, of s q] that by (simp add: views)
  show "s' = s" if "awaited ?w s = Some q" "awaited ?w s' = Some q" for s s' q
    using promises_ok_awaited(4) [OF ok, of s q s'] that by (simp add: views)
qed

lemma unowned_reject_promise:
  assumes "unowned w p" and "q \<noteq> p"
  shows "unowned (reject_promise q e w) p"
proof -
  let ?w = "reject_promise q e w"
  have views: "owned ?w = owned w" "awaited ?w = awaited w"
    by (simp_all add: views_def fun_eq_iff)
  from assms have "map_of (promises ?w) p = map_of (promises w) p"
    by (intro reject_promise_unrelated) (simp_all add: unownedD)
  with assms(1) show ?thesis
    by (simp add: unowned_def views)
qed

lemma all_on_fulfil_not_element:
  "p \<notin> \<Union> (set ` snd ` set cs) \<Longrightarrow> all_on_fulfil p cs w = w"
  by (induction p cs w rule: all_on_fulfil.induct) auto

lemma all_on_reject_not_element:
  "p \<notin> \<Union> (set ` snd ` set cs) \<Longrightarrow> all_on_reject p e cs w = w"
  by (induction p e cs w rule: all_on_reject.induct) auto

lemma promise_all_promises:
  assumes "map_of (promises w) c = Some Pending" and "c \<notin> elements w" and "c \<notin> set es"
  shows "map_of (promises (promise_all c es w)) q =
    (if q = c
     then Some (case first_rejected (promises w) es of
                  Some r \<Rightarrow> Rejected r
                | None \<Rightarrow> (case all_result (promises w) es of
                             Some vs \<Rightarrow> Fulfilled (JArr vs)
                           | None \<Rightarrow> Pending))
     else map_of (promises w) q)"
proof -
  let ?w1 = "w\<lparr>alls := alls w @ [(c, es)]\<rparr>"
  have ne: "c \<notin> \<Union> (set ` snd ` set (alls ?w1))"
    using assms(2,3) by (simp add: elements_def)
  have "all_on_fulfil c (alls ?w1) w' = w'" "all_on_reject c r (alls ?w1) w' = w'" for w' r
    by (rule all_on_fulfil_not_element [OF ne]) (rule all_on_reject_not_element [OF ne])
  then have "resolve_promise c v ?w1 = set_promise c (Fulfilled v) ?w1"
    "reject_promise c r ?w1 = set_promise c (Rejected r) ?w1" for v r
    using assms(1) by (simp_all add: resolve_promise_def reject_promise_def)
  then show ?thesis
    using assms(1) by (simp add: promise_all_def Let_def split: option.split)
qed

lemma promises_ok_promise_all:
  assumes ok: "promises_ok w" and c: "unowned w c"
    and es: "\<And>e. e \<in> set es \<Longrightarrow>
               e < next_promise w \<and> e \<noteq> c \<and> e \<notin> combined w \<and> (\<forall>s. awaited w s \<noteq> Some e)"
  shows "promises_ok (promise_all c es w)"
proof (rule promises_okI)
  let ?w = "promise_all c es w"
  let ?st = "case first_rejected (promises w) es of
                  Some r \<Rightarrow> Rejected r
                | None \<Rightarrow> (case all_result (promises w) es of
                             Some vs \<Rightarrow> Fulfilled (JArr vs)
                           | None \<Rightarrow> Pending)"
  have c_es: "c \<notin> set es" using es by blast
  have ps: "map_of (promises ?w) q = (if q = c then Some ?st else map_of (promises w) q)" for q
    by (rule promise_all_promises) (simp_all add: unownedD [OF c] c_es)
  have views: "combined ?w = insert c (combined w)" "elements ?w = elements w \<union> set es"
    "entry_promises ?w = entry_promises w" "timer_promises ?w = timer_promises w"
    "awaited ?w = awaited w"
    by (auto simp: views_def fun_eq_iff)
  have owned: "owned ?w = insert c (owned w \<union> set es)"
    unfolding owned_def views by blast
  have same_es: "map_of (promises ?w) e = map_of (promises w) e" if "e \<in> set es" for e
    using that c_es by (auto simp: ps)
  show "fan_in_ok (promises ?w) c' es'" if "(c', es') \<in> set (alls ?w)" for c' es'
  proof (cases "(c', es') \<in> set (alls w)")
    case True
    from in_combined [OF True] unownedD(5) [OF c] have "c' \<noteq> c" by blast
    moreover have "e \<noteq> c" if "e \<in> set es'" for e
      using in_elements [OF True that] unownedD(6) [OF c] by blast
    ultimately have "fan_in_ok (promises ?w) c' es' = fan_in_ok (promises w) c' es'"
      by (intro fan_in_ok_cong) (auto simp: ps)
    with promises_ok_fan [OF ok True] show ?thesis by simp
  next
    case False
    with that have new: "c' = c" "es' = es" by auto
    have all: "all_result (promises ?w) es = all_result (promises w) es"
      by (rule all_result_cong) (rule same_es)
    have rej: "first_rejected (promises ?w) es = first_rejected (promises w) es"
      by (rule first_rejected_cong) (rule same_es)
    have map: "map (map_of (promises ?w)) es = map (map_of (promises w)) es"
      using same_es by simp
    have "Some (Rejected r) \<in> set (map (map_of (promises w)) es)"
      if "first_rejected (promises w) es = Some r" for r
      using first_rejected_SomeD [OF that] by (simp only: rejected_in_map)
    then show ?thesis
      unfolding new fan_in_ok_def all rej map
      by (auto simp: ps split: option.split)
  qed
  show "distinct (map fst (alls ?w))"
    using promises_ok_distinct [OF ok] unownedD(5) [OF c] by (simp add: combined_def)
  show "combined ?w \<inter> (elements ?w \<union> entry_promises ?w \<union> timer_promises ?w) = {}"
    unfolding views
    using promises_ok_disjoint [OF ok] unownedD(6,7,8) [OF c] c_es es by blast
  show "p < next_promise ?w" if "p \<in> owned ?w" for p
    using that promises_ok_bound [OF ok, of p] unownedD(1) [OF c] es
    unfolding owned by auto
  show "p < next_promise ?w" if "awaited ?w s = Some p" for s p
    using promises_ok_awaited(1) [OF ok, of s p] that by (simp add: views)
  show "map_of (promises ?w) p = Some Pending" if "awaited ?w s = Some p" for s p
  proof -
    from that have a: "awaited w s = Some p" by (simp add: views)
    with unownedD(4) [OF c, of s] have "p \<noteq> c" by auto
    with promises_ok_awaited(2) [OF ok a] show ?thesis by (simp add: ps)
  qed
  show "p \<notin> owned ?w" if "awaited ?w s = Some p" for s p
  proof -
    from that have a: "awaited w s = Some p" by (simp add: views)
    with unownedD(4) [OF c, of s] have "p \<noteq> c" by auto
    moreover from a es have "p \<notin> set es" by blast
    ultimately show ?thesis
      using promises_ok_awaited(3) [OF ok a] unfolding owned by blast
  qed
  show "s' = s" if "awaited ?w s = Some p" "awaited ?w s' = Some p" for s s' p
    using promises_ok_awaited(4) [OF ok, of s p s'] that by (simp add: views)
qed

subsection \<open>Entries and timers that refer to promises\<close>

lemma in_set_updateD: "x \<in> set (AList.update k v al) \<Longrightarrow> x = (k, v) \<or> x \<in> set al"
  using set_update_subset [of k v al] by blast

lemma entry_promisesI: "(j, e) \<in> set (pendingRequests w) \<Longrightarrow> entry_promise e \<in> entry_promises w"
  unfolding entry_promises_def by (metis image_eqI snd_conv)

lemma entry_promises_update:
  assumes "pendingRequests w' = AList.update i e (pendingRequests w)"
  shows "entry_promises w' \<subseteq> {entry_promise e} \<union> entry_promises w"
proof
  fix x assume "x \<in> entry_promises w'"
  then obtain j e' where "(j, e') \<in> set (AList.update i e (pendingRequests w))" "x = entry_promise e'"
    unfolding entry_promises_def assms by auto
  then show "x \<in> {entry_promise e} \<union> entry_promises w"
    using in_set_updateD [of "(j, e')" i e "pendingRequests w"] entry_promisesI [of j e' w]
    by auto
qed

lemma entry_promises_delete:
  assumes "pendingRequests w' = AList.delete i (pendingRequests w)"
  shows "entry_promises w' \<subseteq> entry_promises w"
proof
  fix x assume "x \<in> entry_promises w'"
  then obtain j e' where "(j, e') \<in> set (AList.delete i (pendingRequests w))" "x = entry_promise e'"
    unfolding entry_promises_def assms by auto
  then show "x \<in> entry_promises w"
    using in_set_deleteD [of "(j, e')" i "pendingRequests w"] entry_promisesI [of j e' w]
    by auto
qed

lemma timer_promises_update_request:
  assumes "timers w' = AList.update t (RequestTimeout i m p, d) (timers w)"
  shows "timer_promises w' \<subseteq> {p} \<union> timer_promises w"
proof
  fix x assume "x \<in> timer_promises w'"
  then obtain t' i' m' d' where
    "(t', RequestTimeout i' m' x, d') \<in> set (AList.update t (RequestTimeout i m p, d) (timers w))"
    unfolding timer_promises_def assms by blast
  from in_set_updateD [OF this] show "x \<in> {p} \<union> timer_promises w"
    unfolding timer_promises_def by auto
qed

lemma timer_promises_update_reconnect:
  assumes "timers w' = AList.update t (Reconnect, d) (timers w)"
  shows "timer_promises w' \<subseteq> timer_promises w"
proof
  fix x assume "x \<in> timer_promises w'"
  then obtain t' i' m' d' where
    "(t', RequestTimeout i' m' x, d') \<in> set (AList.update t (Reconnect, d) (timers w))"
    unfolding timer_promises_def assms by blast
  from in_set_updateD [OF this] show "x \<in> timer_promises w"
    unfolding timer_promises_def by auto
qed

lemma timer_promises_delete:
  assumes "timers w' = AList.delete t (timers w)"
  shows "timer_promises w' \<subseteq> timer_promises w"
proof
  fix x assume "x \<in> timer_promises w'"
  then obtain t' i' m' d' where
    "(t', RequestTimeout i' m' x, d') \<in> set (AList.delete t (timers w))"
    unfolding timer_promises_def assms by blast
  from in_set_deleteD [OF this] show "x \<in> timer_promises w"
    unfolding timer_promises_def by auto
qed

lemma awaited_cong: "sockets w' = sockets w \<Longrightarrow> awaited w' = awaited w"
  by (simp add: awaited_def fun_eq_iff)

lemma promises_ok_clearTimeout:
  assumes "promises_ok w"
  shows "promises_ok (clearTimeout t w)"
proof (rule promises_ok_frame [OF assms, where X = "{}"])
  show "entry_promises (clearTimeout t w) \<subseteq> {} \<union> entry_promises w"
    by (simp add: entry_promises_def)
  show "timer_promises (clearTimeout t w) \<subseteq> {} \<union> timer_promises w"
    using timer_promises_delete [of "clearTimeout t w" t w] by simp
  show "awaited (clearTimeout t w) s = awaited w s \<or> awaited (clearTimeout t w) s = None" for s
    by (simp add: awaited_def)
qed simp_all

lemma promises_ok_pending_delete:
  assumes "promises_ok w"
  shows "promises_ok (pending_delete i w)"
proof (rule promises_ok_frame [OF assms, where X = "{}"])
  show "entry_promises (pending_delete i w) \<subseteq> {} \<union> entry_promises w"
    using entry_promises_delete [of "pending_delete i w" i w] by simp
  show "timer_promises (pending_delete i w) \<subseteq> {} \<union> timer_promises w"
    by (simp add: timer_promises_def)
  show "awaited (pending_delete i w) s = awaited w s \<or> awaited (pending_delete i w) s = None" for s
    by (simp add: awaited_def)
qed simp_all


subsection \<open>Sending keeps the invariant of the promises\<close>

lemma request_body_cases:
  obtains w3 err x where
    "promises w3 = promises w" "alls w3 = alls w" "next_promise w3 = next_promise w"
    "sockets w3 = sockets w"
    "pendingRequests w3 =
       AList.update (Suc (requestId w)) (FromRequest (next_timer w) p) (pendingRequests w)"
    "timers w3 =
       AList.update (next_timer w) (RequestTimeout (Suc (requestId w)) m p, r_timeout (options w))
         (timers w)"
    "request_body m ps p w = reject_promise p err w3 \<or> request_body m ps p w = w3\<lparr>sent := x\<rparr>"
proof -
  define w3 where "w3 = w\<lparr>requestId := Suc (requestId w),
      timers := AList.update (next_timer w)
        (RequestTimeout (Suc (requestId w)) m p, r_timeout (options w)) (timers w),
      next_timer := Suc (next_timer w),
      pendingRequests := AList.update (Suc (requestId w)) (FromRequest (next_timer w) p)
        (pendingRequests w)\<rparr>"
  have body: "request_body m ps p w =
      (case ws w3 of
         None \<Rightarrow> reject_promise p TypeError w3
       | Some s \<Rightarrow>
           (case ws_send s (Single \<lparr>req_method = m, req_params = ps, req_id = Suc (requestId w)\<rparr>) w3 of
              Inl e \<Rightarrow> reject_promise p e w3
            | Inr w4 \<Rightarrow> w4))"
    by (simp add: request_body_def w3_def Let_def setTimeout_def pending_set_def
        cong: option.case_cong sum.case_cong)
  have sent: "w4 = w3\<lparr>sent := sent w4\<rparr>" if "ws_send s f w3 = Inr w4" for s f w4
    using that by (auto simp: ws_send_def split: option.splits ready_state.splits)
  have "\<exists>err x. request_body m ps p w = reject_promise p err w3 \<or>
      request_body m ps p w = w3\<lparr>sent := x\<rparr>"
  proof (cases "ws w3")
    case None
    then show ?thesis unfolding body by auto
  next
    case (Some s)
    show ?thesis
    proof (cases "ws_send s (Single \<lparr>req_method = m, req_params = ps, req_id = Suc (requestId w)\<rparr>) w3")
      case (Inl e)
      with Some show ?thesis unfolding body by auto
    next
      case (Inr w4)
      from sent [OF Inr] Some Inr show ?thesis unfolding body by auto
    qed
  qed
  then obtain err x where "request_body m ps p w = reject_promise p err w3 \<or>
      request_body m ps p w = w3\<lparr>sent := x\<rparr>"
    by blast
  then show ?thesis
    by (intro that [of w3 err x]) (simp_all add: w3_def)
qed

lemma promises_ok_request_body:
  assumes ok: "promises_ok w" and p: "unowned w p"
  shows "promises_ok (request_body m ps p w)"
proof -
  obtain w3 err x where w3: "promises w3 = promises w" "alls w3 = alls w"
    "next_promise w3 = next_promise w" "sockets w3 = sockets w"
    "pendingRequests w3 =
       AList.update (Suc (requestId w)) (FromRequest (next_timer w) p) (pendingRequests w)"
    "timers w3 =
       AList.update (next_timer w) (RequestTimeout (Suc (requestId w)) m p, r_timeout (options w))
         (timers w)"
    and body: "request_body m ps p w = reject_promise p err w3 \<or>
      request_body m ps p w = w3\<lparr>sent := x\<rparr>"
    by (rule request_body_cases)
  have ok3: "promises_ok w3"
  proof (rule promises_ok_frame [OF ok w3(1,3,2), where X = "{p}"])
    show "entry_promises w3 \<subseteq> {p} \<union> entry_promises w"
      using entry_promises_update [OF w3(5)] by simp
    show "timer_promises w3 \<subseteq> {p} \<union> timer_promises w"
      by (rule timer_promises_update_request [OF w3(6)])
    show "awaited w3 s = awaited w s \<or> awaited w3 s = None" for s
      by (simp add: awaited_cong [OF w3(4)])
    show "unowned w q" if "q \<in> {p}" for q
      using that p by simp
  qed
  have "p \<notin> combined w3" "awaited w3 s \<noteq> Some p" for s
    using unownedD(4,5) [OF p] by (simp_all add: combined_def w3(2) awaited_cong [OF w3(4)])
  then have "promises_ok (reject_promise p err w3)"
    by (intro promises_ok_reject_promise ok3)
  moreover have "promises_ok (w3\<lparr>sent := x\<rparr>)"
    by (rule promises_ok_same [OF ok3]) simp_all
  ultimately show ?thesis
    using body by auto
qed

lemma promises_ok_pending_set:
  assumes ok: "promises_ok w" and e: "unowned w (entry_promise e)"
  shows "promises_ok (pending_set i e w)"
proof (rule promises_ok_frame [OF ok, where X = "{entry_promise e}"])
  show "entry_promises (pending_set i e w) \<subseteq> {entry_promise e} \<union> entry_promises w"
    using entry_promises_update [of "pending_set i e w" i e w] by simp
  show "timer_promises (pending_set i e w) \<subseteq> {entry_promise e} \<union> timer_promises w"
    by (auto simp: timer_promises_def)
  show "awaited (pending_set i e w) s = awaited w s \<or> awaited (pending_set i e w) s = None" for s
    by (simp add: awaited_def)
  show "unowned w q" if "q \<in> {entry_promise e}" for q
    using that e by simp
qed simp_all

lemma unowned_pending_set:
  assumes "unowned w p" and "entry_promise e \<noteq> p"
  shows "unowned (pending_set i e w) p"
proof -
  have "entry_promises (pending_set i e w) \<subseteq> {entry_promise e} \<union> entry_promises w"
    using entry_promises_update [of "pending_set i e w" i e w] by simp
  with assms show ?thesis
    by (auto simp: unowned_def owned_def combined_def elements_def timer_promises_def awaited_def)
qed

lemma register_all_promises_ok:
  assumes "promises_ok w" and "unowned w p"
  shows "promises_ok (snd (register_all qs w)) \<and> unowned (snd (register_all qs w)) p"
  using assms
proof (induction qs arbitrary: w)
  case Nil
  then show ?case by simp
next
  case (Cons q qs)
  let ?w1 = "snd (new_promise w)"
  let ?w2 = "pending_set (req_id q) (FromBatch (next_promise w)) ?w1"
  have step: "snd (register_all (q # qs) w) = snd (register_all qs ?w2)"
    by (simp add: split_beta Let_def)
  have ok1: "promises_ok ?w1" and new1: "unowned ?w1 (next_promise w)"
    using promises_ok_new_promise [OF Cons.prems(1)] by simp_all
  have p1: "unowned ?w1 p"
    by (rule unowned_new_promise [OF Cons.prems(2)])
  have ok2: "promises_ok ?w2"
    by (rule promises_ok_pending_set [OF ok1]) (simp add: new1)
  have "next_promise w \<noteq> p"
    using unownedD(1) [OF Cons.prems(2)] by simp
  then have p2: "unowned ?w2 p"
    by (intro unowned_pending_set [OF p1]) simp
  from Cons.IH [OF ok2 p2] show ?case
    unfolding step .
qed

lemma batch_body_cases:
  obtains w2 err x where
    "w2 = snd (register_all (fst (assign_ids rs (requestId w)))
                 (w\<lparr>requestId := snd (assign_ids rs (requestId w))\<rparr>))"
    "batch_body rs p w = reject_promise p err w2 \<or>
     batch_body rs p w =
       promise_all p [next_promise w ..< next_promise w + length rs] (w2\<lparr>sent := x\<rparr>)"
proof -
  define w2 where "w2 = snd (register_all (fst (assign_ids rs (requestId w)))
                 (w\<lparr>requestId := snd (assign_ids rs (requestId w))\<rparr>))"
  let ?elems = "[next_promise w ..< next_promise w + length rs]"
  have elems: "fst (register_all (fst (assign_ids rs (requestId w)))
                 (w\<lparr>requestId := snd (assign_ids rs (requestId w))\<rparr>)) = ?elems"
    by (simp add: register_all_promises assign_ids_ids)
  have body: "batch_body rs p w =
      (case ws w2 of
         None \<Rightarrow> reject_promise p TypeError w2
       | Some s \<Rightarrow>
           (case ws_send s (Array (fst (assign_ids rs (requestId w)))) w2 of
              Inl e \<Rightarrow> reject_promise p e w2
            | Inr w3 \<Rightarrow> promise_all p ?elems w3))"
    unfolding batch_body_def w2_def Let_def split_beta elems ..
  have sent: "w3 = w2\<lparr>sent := sent w3\<rparr>" if "ws_send s f w2 = Inr w3" for s f w3
    using that by (auto simp: ws_send_def split: option.splits ready_state.splits)
  have "\<exists>err x. batch_body rs p w = reject_promise p err w2 \<or>
      batch_body rs p w = promise_all p ?elems (w2\<lparr>sent := x\<rparr>)"
  proof (cases "ws w2")
    case None
    then show ?thesis unfolding body by auto
  next
    case (Some s)
    show ?thesis
    proof (cases "ws_send s (Array (fst (assign_ids rs (requestId w)))) w2")
      case (Inl e)
      with Some show ?thesis unfolding body by auto
    next
      case (Inr w3)
      have "batch_body rs p w = promise_all p ?elems w3"
        unfolding body using Some Inr by simp
      also have "w3 = w2\<lparr>sent := sent w3\<rparr>"
        by (rule sent [OF Inr])
      finally show ?thesis by blast
    qed
  qed
  then obtain err x where "batch_body rs p w = reject_promise p err w2 \<or>
      batch_body rs p w = promise_all p ?elems (w2\<lparr>sent := x\<rparr>)"
    by blast
  then show ?thesis
    by (intro that [of w2 err x]) (simp_all add: w2_def)
qed

lemma promises_ok_batch_body:
  assumes ok: "promises_ok w" and p: "unowned w p"
  shows "promises_ok (batch_body rs p w)"
proof -
  let ?w1 = "w\<lparr>requestId := snd (assign_ids rs (requestId w))\<rparr>"
  let ?qs = "fst (assign_ids rs (requestId w))"
  let ?elems = "[next_promise w ..< next_promise w + length rs]"
  obtain w2 err x where w2: "w2 = snd (register_all ?qs ?w1)"
    and body: "batch_body rs p w = reject_promise p err w2 \<or>
      batch_body rs p w = promise_all p ?elems (w2\<lparr>sent := x\<rparr>)"
    by (rule batch_body_cases)
  have ok1: "promises_ok ?w1"
    by (rule promises_ok_same [OF ok]) simp_all
  have p1: "unowned ?w1 p"
    by (rule unowned_same [OF p]) simp_all
  from register_all_promises_ok [OF ok1 p1, of ?qs]
  have ok2: "promises_ok w2" and p2: "unowned w2 p"
    unfolding w2 by simp_all
  have fields: "alls w2 = alls w" "sockets w2 = sockets w"
    "next_promise w2 = next_promise w + length rs"
    unfolding w2 by (simp_all add: assign_ids_ids)
  have "promises_ok (reject_promise p err w2)"
    using unownedD(4,5) [OF p2] by (intro promises_ok_reject_promise ok2)
  moreover have "promises_ok (promise_all p ?elems (w2\<lparr>sent := x\<rparr>))"
  proof (rule promises_ok_promise_all)
    show "promises_ok (w2\<lparr>sent := x\<rparr>)"
      by (rule promises_ok_same [OF ok2]) simp_all
    show "unowned (w2\<lparr>sent := x\<rparr>) p"
      by (rule unowned_same [OF p2]) simp_all
    show "e < next_promise (w2\<lparr>sent := x\<rparr>) \<and> e \<noteq> p \<and> e \<notin> combined (w2\<lparr>sent := x\<rparr>) \<and>
        (\<forall>s. awaited (w2\<lparr>sent := x\<rparr>) s \<noteq> Some e)"
      if "e \<in> set ?elems" for e
    proof -
      from that have e: "next_promise w \<le> e" "e < next_promise w + length rs" by auto
      have "e \<notin> combined w"
        using promises_ok_bound [OF ok, of e] e(1) by (auto simp: owned_def)
      moreover have "awaited w s \<noteq> Some e" for s
        using promises_ok_awaited(1) [OF ok, of s e] e(1) by auto
      moreover have "e \<noteq> p"
        using unownedD(1) [OF p] e(1) by auto
      ultimately show ?thesis
        using e(2) by (simp add: combined_def awaited_def fields)
    qed
  qed
  ultimately show ?thesis
    using body by auto
qed

subsection \<open>Connecting keeps the invariant of the promises\<close>

lemma promises_ok_console_error: "promises_ok w \<Longrightarrow> promises_ok (console_error s e w)"
  by (erule promises_ok_same) (simp_all add: console_error_def)

lemma promises_ok_console_warn: "promises_ok w \<Longrightarrow> promises_ok (console_warn s v w)"
  by (erule promises_ok_same) (simp_all add: console_warn_def)

lemma promises_ok_console_log: "promises_ok w \<Longrightarrow> promises_ok (console_log s w)"
  by (erule promises_ok_same) (simp_all add: console_log_def)

lemma promises_ok_state: "promises_ok w \<Longrightarrow> promises_ok (w\<lparr>state := x\<rparr>)"
  by (erule promises_ok_same) simp_all

lemma promises_ok_ws: "promises_ok w \<Longrightarrow> promises_ok (w\<lparr>ws := x\<rparr>)"
  by (erule promises_ok_same) simp_all

lemma promises_ok_reconnectTimer: "promises_ok w \<Longrightarrow> promises_ok (w\<lparr>reconnectTimer := x\<rparr>)"
  by (erule promises_ok_same) simp_all

lemma promises_ok_run_cont:
  assumes "promises_ok w" and "\<And>p. cont_promise k = Some p \<Longrightarrow> unowned w p"
  shows "promises_ok (run_cont k w)"
  using assms by (cases k) (simp_all add: promises_ok_request_body promises_ok_batch_body)

lemma promises_ok_fail_cont:
  assumes "promises_ok w" and "\<And>p. cont_promise k = Some p \<Longrightarrow> unowned w p"
  shows "promises_ok (fail_cont k e w)"
proof (cases "cont_promise k")
  case None
  with assms(1) show ?thesis
    by (cases k) (simp_all add: promises_ok_console_error)
next
  case (Some p)
  from assms(2) [OF Some] have "promises_ok (reject_promise p e w)"
    by (intro promises_ok_reject_promise assms(1)) (simp_all add: unownedD)
  with Some show ?thesis
    by (cases k) simp_all
qed

lemma awaited_set_ready_state: "awaited (set_ready_state s r w) = awaited w"
  by (auto simp: awaited_def set_ready_state_def fun_eq_iff update_conv' split: option.split)

lemma promises_ok_set_ready_state:
  assumes "promises_ok w"
  shows "promises_ok (set_ready_state s r w)"
proof (rule promises_ok_frame [OF assms, where X = "{}"])
  show "awaited (set_ready_state s r w) s' = awaited w s' \<or> awaited (set_ready_state s r w) s' = None"
    for s'
    by (simp add: awaited_set_ready_state)
qed (simp_all add: set_ready_state_def entry_promises_def timer_promises_def split: option.split)

text \<open>A new socket, with the call that awaits it.\<close>

lemma promises_ok_new_socket:
  assumes ok: "promises_ok w" and k: "\<And>p. cont_promise k = Some p \<Longrightarrow> unowned w p"
    and w': "promises w' = promises w" "next_promise w' = next_promise w" "alls w' = alls w"
      "pendingRequests w' = pendingRequests w" "timers w' = timers w"
      "sockets w' = AList.update s \<lparr>readyState = r, opened = Pending, awaiter = k\<rparr> (sockets w)"
  shows "promises_ok w'"
proof (rule promises_okI)
  have views: "combined w' = combined w" "elements w' = elements w"
    "entry_promises w' = entry_promises w" "timer_promises w' = timer_promises w"
    "owned w' = owned w"
    by (simp_all add: views_def w')
  have aw: "awaited w' s' = (if s' = s then cont_promise k else awaited w s')" for s'
    by (simp add: awaited_def w' update_conv')
  have un: "unowned w p" if "awaited w' s' = Some p" "s' = s" for s' p
    using that k by (simp add: aw)
  have old: "awaited w s' = Some p" if "awaited w' s' = Some p" "s' \<noteq> s" for s' p
    using that by (simp add: aw)
  show "fan_in_ok (promises w') c es" if "(c, es) \<in> set (alls w')" for c es
    using that promises_ok_fan [OF ok] by (simp add: w')
  show "distinct (map fst (alls w'))"
    using promises_ok_distinct [OF ok] by (simp add: w')
  show "combined w' \<inter> (elements w' \<union> entry_promises w' \<union> timer_promises w') = {}"
    using promises_ok_disjoint [OF ok] by (simp only: views)
  show "p < next_promise w'" if "p \<in> owned w'" for p
    using promises_ok_bound [OF ok, of p] that by (simp add: views w')
  show "p < next_promise w'" if "awaited w' s' = Some p" for s' p
    using unownedD(1) [OF un [OF that]] promises_ok_awaited(1) [OF ok old [OF that]]
    by (cases "s' = s") (simp_all add: w')
  show "map_of (promises w') p = Some Pending" if "awaited w' s' = Some p" for s' p
    using unownedD(2) [OF un [OF that]] promises_ok_awaited(2) [OF ok old [OF that]]
    by (cases "s' = s") (simp_all add: w')
  show "p \<notin> owned w'" if "awaited w' s' = Some p" for s' p
    using unownedD(3) [OF un [OF that]] promises_ok_awaited(3) [OF ok old [OF that]]
    by (cases "s' = s") (simp_all add: views)
  show "s2 = s1" if a: "awaited w' s1 = Some p" "awaited w' s2 = Some p" for s1 s2 p
  proof (cases "s1 = s")
    case True
    show ?thesis
    proof (cases "s2 = s")
      case True
      with \<open>s1 = s\<close> show ?thesis by simp
    next
      case False
      from unownedD(4) [OF un [OF a(1) True], of s2] old [OF a(2) False]
      show ?thesis by simp
    qed
  next
    case False
    show ?thesis
    proof (cases "s2 = s")
      case True
      from unownedD(4) [OF un [OF a(2) True], of s1] old [OF a(1) False]
      show ?thesis by simp
    next
      case s2: False
      from promises_ok_awaited(4) [OF ok old [OF a(1) False] old [OF a(2) s2]]
      show ?thesis .
    qed
  qed
qed

lemma promises_ok_connect:
  assumes "promises_ok w" and "\<And>p. cont_promise k = Some p \<Longrightarrow> unowned w p"
  shows "promises_ok (connect k w)"
proof (cases "ws_is_open w")
  case True
  with assms show ?thesis
    by (simp add: connect_def promises_ok_run_cont)
next
  case False
  have "promises_ok (w\<lparr>state := connecting,
      sockets := AList.update (next_socket w)
                   \<lparr>readyState = CONNECTING, opened = Pending, awaiter = k\<rparr> (sockets w),
      next_socket := Suc (next_socket w), ws := Some (next_socket w)\<rparr>)"
    by (rule promises_ok_new_socket [OF assms]) simp_all
  with False show ?thesis
    by (simp add: connect_def Let_def)
qed

text \<open>The promise of a socket settles: the call that awaited it goes on.\<close>

lemma promises_ok_settle_opened:
  assumes ok: "promises_ok w" and sock: "map_of (sockets w) s = Some sock" "opened sock = Pending"
    and st: "st \<noteq> Pending"
    and w': "promises w' = promises w" "next_promise w' = next_promise w" "alls w' = alls w"
      "pendingRequests w' = pendingRequests w" "timers w' = timers w"
      "sockets w' = AList.update s (sock\<lparr>opened := st\<rparr>) (sockets w)"
  shows "promises_ok w'" and "\<And>p. cont_promise (awaiter sock) = Some p \<Longrightarrow> unowned w' p"
proof -
  have aw: "awaited w' s' = (if s' = s then None else awaited w s')" for s'
    using st by (simp add: awaited_def w' update_conv')
  have views: "owned w' = owned w"
    by (simp add: views_def w')
  show "promises_ok w'"
  proof (rule promises_ok_frame [OF ok w'(1,2,3), where X = "{}"])
    show "awaited w' s' = awaited w s' \<or> awaited w' s' = None" for s'
      by (simp add: aw)
  qed (simp_all add: entry_promises_def timer_promises_def w')
  show "unowned w' p" if "cont_promise (awaiter sock) = Some p" for p
  proof -
    from that sock have a: "awaited w s = Some p"
      by (simp add: awaited_def)
    have "awaited w' s' \<noteq> Some p" for s'
      using promises_ok_awaited(4) [OF ok a, of s'] by (auto simp: aw)
    with promises_ok_awaited(1,2,3) [OF ok a] show ?thesis
      by (simp add: unowned_def views w')
  qed
qed

lemma promises_ok_resolve_opened:
  assumes ok: "promises_ok w"
  shows "promises_ok (resolve_opened s w)"
proof (cases "map_of (sockets w) s")
  case None
  with ok show ?thesis by (simp add: resolve_opened_def)
next
  case (Some sock)
  show ?thesis
  proof (cases "opened sock = Pending")
    case False
    with Some ok show ?thesis by (simp add: resolve_opened_def)
  next
    case True
    let ?w = "w\<lparr>sockets := AList.update s (sock\<lparr>opened := Fulfilled Undefined\<rparr>) (sockets w)\<rparr>"
    have "promises_ok ?w" and "\<And>p. cont_promise (awaiter sock) = Some p \<Longrightarrow> unowned ?w p"
      by (rule promises_ok_settle_opened [OF ok Some True, where st = "Fulfilled Undefined"];
          simp)+
    then have "promises_ok (run_cont (awaiter sock) ?w)"
      by (rule promises_ok_run_cont)
    with Some True show ?thesis by (simp add: resolve_opened_def)
  qed
qed

lemma promises_ok_reject_opened:
  assumes ok: "promises_ok w"
  shows "promises_ok (reject_opened s e w)"
proof (cases "map_of (sockets w) s")
  case None
  with ok show ?thesis by (simp add: reject_opened_def)
next
  case (Some sock)
  show ?thesis
  proof (cases "opened sock = Pending")
    case False
    with Some ok show ?thesis by (simp add: reject_opened_def)
  next
    case True
    let ?w = "w\<lparr>sockets := AList.update s (sock\<lparr>opened := Rejected e\<rparr>) (sockets w)\<rparr>"
    have "promises_ok ?w" and "\<And>p. cont_promise (awaiter sock) = Some p \<Longrightarrow> unowned ?w p"
      by (rule promises_ok_settle_opened [OF ok Some True, where st = "Rejected e"]; simp)+
    then have "promises_ok (fail_cont (awaiter sock) e ?w)"
      by (rule promises_ok_fail_cont)
    with Some True show ?thesis by (simp add: reject_opened_def)
  qed
qed

subsection \<open>Settling the promise of a pending request keeps the invariant\<close>

lemma promises_ok_referred:
  assumes ok: "promises_ok w" and p: "p \<in> entry_promises w \<union> timer_promises w"
  shows "p \<notin> combined w" and "\<And>s. awaited w s \<noteq> Some p"
proof -
  from promises_ok_disjoint [OF ok] p show "p \<notin> combined w"
    by blast
  from p have "p \<in> owned w"
    by (auto simp: owned_def)
  with promises_ok_awaited(3) [OF ok] show "awaited w s \<noteq> Some p" for s
    by blast
qed

lemma promises_ok_call_reject:
  assumes ok: "promises_ok w" and p: "p \<notin> combined w" "\<And>s. awaited w s \<noteq> Some p"
  shows "promises_ok (call_reject i p e w)"
proof -
  let ?w = "w\<lparr>settle_calls := settle_calls w @ [(i, Rejected e)]\<rparr>"
  have "promises_ok ?w"
    by (rule promises_ok_same [OF ok]) simp_all
  moreover have "p \<notin> combined ?w"
    using p(1) by (simp add: combined_def)
  moreover have "awaited ?w s \<noteq> Some p" for s
    using p(2) [of s] by (simp add: awaited_def)
  ultimately show ?thesis
    unfolding call_reject_def by (rule promises_ok_reject_promise)
qed

lemma promises_ok_call_resolve:
  assumes ok: "promises_ok w" and p: "p \<notin> combined w" "\<And>s. awaited w s \<noteq> Some p"
  shows "promises_ok (call_resolve i p v w)"
proof -
  let ?w = "w\<lparr>settle_calls := settle_calls w @ [(i, Fulfilled v)]\<rparr>"
  have "promises_ok ?w"
    by (rule promises_ok_same [OF ok]) simp_all
  moreover have "p \<notin> combined ?w"
    using p(1) by (simp add: combined_def)
  moreover have "awaited ?w s \<noteq> Some p" for s
    using p(2) [of s] by (simp add: awaited_def)
  ultimately show ?thesis
    unfolding call_resolve_def by (rule promises_ok_resolve_promise)
qed

lemma combined_clearTimeout [simp]: "combined (clearTimeout t w) = combined w"
  by (simp add: combined_def clearTimeout_def)

lemma awaited_clearTimeout [simp]: "awaited (clearTimeout t w) = awaited w"
  by (simp add: awaited_def clearTimeout_def fun_eq_iff)

lemma combined_pending_delete [simp]: "combined (pending_delete i w) = combined w"
  by (simp add: combined_def pending_delete_def)

lemma awaited_pending_delete [simp]: "awaited (pending_delete i w) = awaited w"
  by (simp add: awaited_def pending_delete_def fun_eq_iff)

lemma promises_ok_pending_reject:
  assumes ok: "promises_ok w"
    and p: "entry_promise pending \<notin> combined w" "\<And>s. awaited w s \<noteq> Some (entry_promise pending)"
  shows "promises_ok (pending_reject i pending e w)"
proof (cases pending)
  case (FromRequest t p')
  have "promises_ok (call_reject i p' e (clearTimeout t w))"
    using p FromRequest
    by (intro promises_ok_call_reject promises_ok_clearTimeout ok) simp_all
  with FromRequest show ?thesis by simp
next
  case (FromBatch p')
  have "promises_ok (call_reject i p' e w)"
    using p FromBatch by (intro promises_ok_call_reject ok) simp_all
  with FromBatch show ?thesis by simp
qed

lemma promises_ok_pending_resolve:
  assumes ok: "promises_ok w"
    and p: "entry_promise pending \<notin> combined w" "\<And>s. awaited w s \<noteq> Some (entry_promise pending)"
  shows "promises_ok (pending_resolve i pending v w)"
proof (cases pending)
  case (FromRequest t p')
  have "promises_ok (call_resolve i p' v (clearTimeout t w))"
    using p FromRequest
    by (intro promises_ok_call_resolve promises_ok_clearTimeout ok) simp_all
  with FromRequest show ?thesis by simp
next
  case (FromBatch p')
  have "promises_ok (call_resolve i p' v w)"
    using p FromBatch by (intro promises_ok_call_resolve ok) simp_all
  with FromBatch show ?thesis by simp
qed

lemma pending_get_in_set:
  "pending_get w v = Some (i, pending) \<Longrightarrow> (i, pending) \<in> set (pendingRequests w)"
  by (auto simp: pending_get_def split: option.splits dest: map_of_SomeD)

lemma promises_ok_handleSingleMessage:
  assumes ok: "promises_ok w"
  shows "promises_ok (outcome (handleSingleMessage message w))"
proof (cases message w rule: handleSingleMessage_cases)
  case unchanged
  with ok show ?thesis by simp
next
  case (warned v)
  with ok show ?thesis by (simp add: promises_ok_console_warn)
next
  case (thrown i)
  with ok show ?thesis by (simp add: promises_ok_pending_delete)
next
  case (rejected i e err)
  from rejected(1) have "entry_promise e \<in> entry_promises w \<union> timer_promises w"
    by (simp add: entry_promisesI)
  note p = promises_ok_referred [OF ok this]
  have "promises_ok (pending_reject i e err (pending_delete i w))"
    using p by (intro promises_ok_pending_reject promises_ok_pending_delete ok) simp_all
  with rejected(2) show ?thesis by simp
next
  case (resolved i e v)
  from resolved(1) have "entry_promise e \<in> entry_promises w \<union> timer_promises w"
    by (simp add: entry_promisesI)
  note p = promises_ok_referred [OF ok this]
  have "promises_ok (pending_resolve i e v (pending_delete i w))"
    using p by (intro promises_ok_pending_resolve promises_ok_pending_delete ok) simp_all
  with resolved(2) show ?thesis by simp
qed

lemma promises_ok_handle_items:
  "promises_ok w \<Longrightarrow> promises_ok (snd (handle_items items w))"
proof (induction items arbitrary: w)
  case Nil
  then show ?case by simp
next
  case (Cons item items)
  from Cons.prems have "promises_ok (outcome (handleSingleMessage item w))"
    by (rule promises_ok_handleSingleMessage)
  with Cons.IH show ?case
    by (auto split: sum.split)
qed

lemma promises_ok_handleMessage:
  assumes ok: "promises_ok w"
  shows "promises_ok (handleMessage data w)"
proof (cases data)
  case None
  with ok show ?thesis
    by (simp add: handleMessage_unparsable promises_ok_console_error)
next
  case (Some message)
  show ?thesis
  proof (cases "\<exists>items. message = JArr items")
    case True
    then obtain items where "message = JArr items" ..
    with Some promises_ok_handle_items [OF ok, of items] show ?thesis
      by (simp add: handleMessage_array promises_ok_console_error split: option.split)
  next
    case False
    then have ne: "\<forall>items. message \<noteq> JArr items" by simp
    from Some promises_ok_handleSingleMessage [OF ok, of message] show ?thesis
      by (auto simp: handleMessage_single [OF ne] promises_ok_console_error split: sum.split)
  qed
qed

subsection \<open>Timers\<close>

lemma timer_promises_clearTimeout: "timer_promises (clearTimeout t w) \<subseteq> timer_promises w"
  by (rule timer_promises_delete [where t = t]) (simp add: clearTimeout_def)

lemma promises_ok_timer_fire:
  assumes ok: "promises_ok w"
  shows "promises_ok (timer_fire t w)"
proof (cases "map_of (timers w) t")
  case None
  with ok show ?thesis by (simp add: timer_fire_def)
next
  case (Some a)
  obtain task delay where a: "a = (task, delay)"
    by (cases a)
  show ?thesis
  proof (cases task)
    case (RequestTimeout i m p)
    from Some a RequestTimeout have "(t, RequestTimeout i m p, delay) \<in> set (timers w)"
      by (auto dest: map_of_SomeD)
    then have "p \<in> entry_promises w \<union> timer_promises w"
      by (auto simp: timer_promises_def)
    note p = promises_ok_referred [OF ok this]
    have "promises_ok (call_reject i p (Error (''Request timeout: '' @ m))
            (pending_delete i (clearTimeout t w)))"
      using p
      by (intro promises_ok_call_reject promises_ok_pending_delete promises_ok_clearTimeout ok)
        simp_all
    with Some a RequestTimeout show ?thesis
      by (simp add: timer_fire_def)
  next
    case Reconnect
    have "promises_ok (connect CatchReconnect
            (console_log ''Attempting to reconnect...'' (clearTimeout t w)))"
      by (intro promises_ok_connect promises_ok_console_log promises_ok_clearTimeout ok) simp
    with Some a Reconnect show ?thesis
      by (simp add: timer_fire_def)
  qed
qed

lemma promises_ok_handleDisconnect:
  assumes ok: "promises_ok w"
  shows "promises_ok (handleDisconnect w)"
proof (cases "r_reconnect (options w) \<and> state w \<noteq> error")
  case False
  with ok show ?thesis by (auto simp: handleDisconnect_def)
next
  case True
  let ?w = "w\<lparr>timers := AList.update (next_timer w) (Reconnect, r_reconnectDelay (options w))
                (timers w),
              next_timer := Suc (next_timer w)\<rparr>"
  have "promises_ok ?w"
  proof (rule promises_ok_frame [OF ok, where X = "{}"])
    show "timer_promises ?w \<subseteq> {} \<union> timer_promises w"
      using timer_promises_update_reconnect [of ?w "next_timer w" "r_reconnectDelay (options w)" w]
      by simp
    show "awaited ?w s = awaited w s \<or> awaited ?w s = None" for s
      by (simp add: awaited_def)
  qed (simp_all add: entry_promises_def)
  then have "promises_ok (?w\<lparr>reconnectTimer := Some (next_timer w)\<rparr>)"
    by (rule promises_ok_reconnectTimer)
  with True show ?thesis
    by (simp add: handleDisconnect_def setTimeout_def)
qed

lemma promises_ok_ws_onclose: "promises_ok w \<Longrightarrow> promises_ok (ws_onclose w)"
  unfolding ws_onclose_def by (intro promises_ok_handleDisconnect promises_ok_state)

lemma promises_ok_ws_onerror: "promises_ok w \<Longrightarrow> promises_ok (ws_onerror s w)"
  unfolding ws_onerror_def by (intro promises_ok_reject_opened promises_ok_state)

lemma promises_ok_ws_onopen:
  assumes ok: "promises_ok w"
  shows "promises_ok (ws_onopen s w)"
proof (cases "reconnectTimer w")
  case None
  have "promises_ok (resolve_opened s (w\<lparr>state := connected\<rparr>))"
    by (intro promises_ok_resolve_opened promises_ok_state ok)
  with None show ?thesis by (simp add: ws_onopen_def)
next
  case (Some t)
  have "promises_ok (resolve_opened s
          ((clearTimeout t (w\<lparr>state := connected\<rparr>))\<lparr>reconnectTimer := None\<rparr>))"
    by (intro promises_ok_resolve_opened promises_ok_reconnectTimer promises_ok_clearTimeout
        promises_ok_state ok)
  with Some show ?thesis by (simp add: ws_onopen_def)
qed

subsection \<open>Disconnecting\<close>

lemma promises_ok_ws_close: "promises_ok w \<Longrightarrow> promises_ok (ws_close s w)"
  by (simp add: ws_close_def promises_ok_set_ready_state
      split: option.split ready_state.split)

lemma pending_reject_pendingRequests [simp]:
  "pendingRequests (pending_reject i pending e w) = pendingRequests w"
  by (cases pending) simp_all

lemma promises_ok_reject_all:
  "promises_ok w \<Longrightarrow> set es \<subseteq> set (pendingRequests w) \<Longrightarrow> promises_ok (reject_all es w)"
proof (induction es arbitrary: w)
  case Nil
  then show ?case by simp
next
  case (Cons a es)
  obtain i pending where a: "a = (i, pending)"
    by (cases a)
  from Cons.prems(2) a have "(i, pending) \<in> set (pendingRequests w)"
    by simp
  then have "entry_promise pending \<in> entry_promises w \<union> timer_promises w"
    by (simp add: entry_promisesI)
  note p = promises_ok_referred [OF Cons.prems(1) this]
  have "promises_ok (pending_reject i pending (Error ''Connection closed'') w)"
    using p by (intro promises_ok_pending_reject Cons.prems(1)) simp_all
  moreover have "set es \<subseteq> set (pendingRequests
      (pending_reject i pending (Error ''Connection closed'') w))"
    using Cons.prems(2) by simp
  ultimately have "promises_ok (reject_all es
      (pending_reject i pending (Error ''Connection closed'') w))"
    by (rule Cons.IH)
  with a show ?case by simp
qed

lemma promises_ok_clear_pending:
  assumes ok: "promises_ok w"
  shows "promises_ok (w\<lparr>pendingRequests := []\<rparr>)"
proof (rule promises_ok_frame [OF ok, where X = "{}"])
  show "awaited (w\<lparr>pendingRequests := []\<rparr>) s = awaited w s
      \<or> awaited (w\<lparr>pendingRequests := []\<rparr>) s = None" for s
    by (simp add: awaited_def)
qed (simp_all add: entry_promises_def timer_promises_def)

lemma promises_ok_disconnect:
  assumes ok: "promises_ok w"
  shows "promises_ok (disconnect w)"
proof -
  define w1 where "w1 = (case reconnectTimer w of
                  Some t \<Rightarrow> (clearTimeout t w)\<lparr>reconnectTimer := None\<rparr>
                | None \<Rightarrow> w)"
  define w2 where "w2 = (case ws w1 of
                  Some s \<Rightarrow> (ws_close s w1)\<lparr>ws := None\<rparr>
                | None \<Rightarrow> w1)"
  define w3 where "w3 = w2\<lparr>state := disconnected\<rparr>"
  have "promises_ok w1"
    unfolding w1_def
    by (simp add: ok promises_ok_reconnectTimer promises_ok_clearTimeout split: option.split)
  then have "promises_ok w2"
    unfolding w2_def by (simp add: promises_ok_ws promises_ok_ws_close split: option.split)
  then have "promises_ok w3"
    unfolding w3_def by (rule promises_ok_state)
  then have "promises_ok (reject_all (pendingRequests w3) w3)"
    by (rule promises_ok_reject_all) simp
  then have "promises_ok ((reject_all (pendingRequests w3) w3)\<lparr>pendingRequests := []\<rparr>)"
    by (rule promises_ok_clear_pending)
  moreover have "disconnect w = (reject_all (pendingRequests w3) w3)\<lparr>pendingRequests := []\<rparr>"
    by (simp add: disconnect_def Let_def w1_def w2_def w3_def cong: option.case_cong)
  ultimately show ?thesis
    by simp
qed

subsection \<open>Events and calls\<close>

lemma promises_ok_open_event: "promises_ok w \<Longrightarrow> promises_ok (open_event s w)"
  by (simp add: open_event_def promises_ok_ws_onopen promises_ok_set_ready_state)

lemma promises_ok_message_event: "promises_ok w \<Longrightarrow> promises_ok (message_event s data w)"
  by (simp add: message_event_def promises_ok_handleMessage)

lemma promises_ok_close_event: "promises_ok w \<Longrightarrow> promises_ok (close_event s w)"
  by (simp add: close_event_def promises_ok_ws_onclose promises_ok_set_ready_state)

lemma promises_ok_error_event: "promises_ok w \<Longrightarrow> promises_ok (error_event s w)"
  by (simp add: error_event_def promises_ok_ws_onclose promises_ok_ws_onerror
      promises_ok_set_ready_state)

lemma new_promise_fst: "fst (new_promise w) = next_promise w"
  by (simp add: new_promise_def)

lemma promises_ok_request:
  assumes ok: "promises_ok w"
  shows "promises_ok (snd (request m ps w))"
proof -
  let ?w = "snd (new_promise w)" and ?p = "next_promise w"
  note new = promises_ok_new_promise [OF ok]
  have "promises_ok (connect (ThenRequest m ps ?p) ?w)"
    using new by (intro promises_ok_connect) simp_all
  moreover have "promises_ok (request_body m ps ?p ?w)"
    using new by (rule promises_ok_request_body)
  ultimately show ?thesis
    by (simp add: request_def split_beta new_promise_fst)
qed

lemma promises_ok_batch:
  assumes ok: "promises_ok w"
  shows "promises_ok (snd (batch rs w))"
proof -
  let ?w = "snd (new_promise w)" and ?p = "next_promise w"
  note new = promises_ok_new_promise [OF ok]
  have "promises_ok (connect (ThenBatch rs ?p) ?w)"
    using new by (intro promises_ok_connect) simp_all
  moreover have "promises_ok (batch_body rs ?p ?w)"
    using new by (rule promises_ok_batch_body)
  ultimately show ?thesis
    by (simp add: batch_def split_beta new_promise_fst)
qed

lemma promises_ok_connect_nothing: "promises_ok w \<Longrightarrow> promises_ok (connect ThenNothing w)"
  by (rule promises_ok_connect) simp_all

lemma promises_ok_step: "promises_ok w \<Longrightarrow> promises_ok (step ev w)"
  by (cases ev)
    (simp_all add: promises_ok_connect_nothing promises_ok_disconnect promises_ok_request
      promises_ok_batch promises_ok_open_event promises_ok_message_event
      promises_ok_close_event promises_ok_error_event promises_ok_timer_fire)

lemma promises_ok_run: "promises_ok w \<Longrightarrow> promises_ok (run evs w)"
  by (induction evs arbitrary: w) (simp_all add: promises_ok_step)

lemma promises_ok_constructor: "promises_ok (constructor opts)"
  by (rule promises_okI)
    (simp_all add: constructor_def views_def awaited_def Let_def)

subsection \<open>What a batch registers\<close>

lemma all_result_None_iff:
  "all_result ps es = None \<longleftrightarrow> (\<exists>e \<in> set es. \<forall>v. map_of ps e \<noteq> Some (Fulfilled v))"
  by (induction es) (auto split: option.splits promise_state.splits)

lemma fan_in_ok_explicit:
  assumes "fan_in_ok ps c es"
  shows "case map_of ps c of
           None \<Rightarrow> False
         | Some Pending \<Rightarrow>
             (\<forall>q \<in> set es. \<forall>r. map_of ps q \<noteq> Some (Rejected r)) \<and>
             (\<exists>q \<in> set es. \<forall>v. map_of ps q \<noteq> Some (Fulfilled v))
         | Some (Fulfilled v) \<Rightarrow>
             (\<exists>vs. v = JArr vs \<and> map (map_of ps) es = map (\<lambda>x. Some (Fulfilled x)) vs)
         | Some (Rejected r) \<Rightarrow> (\<exists>q \<in> set es. map_of ps q = Some (Rejected r))"
proof (cases "map_of ps c")
  case None
  with assms show ?thesis by (simp add: fan_in_ok_def)
next
  case (Some st)
  show ?thesis
  proof (cases st)
    case Pending
    with Some assms show ?thesis
      by (simp add: fan_in_ok_def first_rejected_None_iff all_result_None_iff)
  next
    case (Fulfilled v)
    with Some assms obtain vs where "all_result ps es = Some vs" "v = JArr vs"
      by (auto simp: fan_in_ok_def)
    with Some Fulfilled show ?thesis
      by (simp add: all_result_Some_map)
  next
    case (Rejected r)
    with Some assms show ?thesis
      by (auto simp: fan_in_ok_def)
  qed
qed

lemma register_all_entry:
  assumes "distinct (map req_id qs)" and "k < length qs"
  shows "map_of (pendingRequests (snd (register_all qs w))) (req_id (qs ! k)) =
         Some (FromBatch (next_promise w + k))"
  using assms
proof (induction qs arbitrary: w k)
  case Nil
  then show ?case by simp
next
  case (Cons q qs)
  let ?w = "pending_set (req_id q) (FromBatch (next_promise w)) (snd (new_promise w))"
  have step: "pendingRequests (snd (register_all (q # qs) w)) =
      pendingRequests (snd (register_all qs ?w))"
    by (simp add: split_beta Let_def new_promise_fst)
  have np: "next_promise ?w = Suc (next_promise w)"
    by simp
  show ?case
  proof (cases k)
    case 0
    have keep: "map_of (pendingRequests (snd (register_all rs w'))) i = map_of (pendingRequests w') i"
      if "i \<notin> req_id ` set rs" for rs w' i
      using that
      by (induction rs arbitrary: w') (simp_all add: split_beta Let_def update_conv')
    from Cons.prems(1) have "req_id q \<notin> req_id ` set qs" by simp
    from keep [OF this] 0 show ?thesis
      unfolding step by (simp add: update_conv')
  next
    case (Suc j)
    with Cons.prems have "distinct (map req_id qs)" "j < length qs" by simp_all
    from Cons.IH [OF this, of ?w] Suc show ?thesis
      unfolding step np by simp
  qed
qed

lemma assign_ids_nth:
  "k < length rs \<Longrightarrow> req_id (fst (assign_ids rs n) ! k) = Suc (n + k)"
proof -
  assume k: "k < length rs"
  then have "req_id (fst (assign_ids rs n) ! k) = map req_id (fst (assign_ids rs n)) ! k"
    by (simp add: assign_ids_ids(3))
  also have "\<dots> = [Suc n ..< Suc (n + length rs)] ! k"
    by (simp only: assign_ids_ids(1))
  also have "\<dots> = Suc (n + k)"
    using k by (simp del: upt_Suc)
  finally show ?thesis .
qed

lemma batch_body_entry:
  assumes "k < length rs"
  shows "map_of (pendingRequests (batch_body rs p w)) (Suc (requestId w + k)) =
         Some (FromBatch (next_promise w + k))"
proof -
  let ?qs = "fst (assign_ids rs (requestId w))"
  have "distinct (map req_id ?qs)"
    by (simp only: assign_ids_ids(1) distinct_upt)
  moreover have "k < length ?qs"
    using assms by (simp add: assign_ids_ids(3))
  ultimately have "map_of (pendingRequests (snd (register_all ?qs
        (w\<lparr>requestId := snd (assign_ids rs (requestId w))\<rparr>)))) (req_id (?qs ! k)) =
      Some (FromBatch (next_promise (w\<lparr>requestId := snd (assign_ids rs (requestId w))\<rparr>) + k))"
    by (rule register_all_entry)
  then show ?thesis
    by (simp add: batch_body_ids(4) assign_ids_nth [OF assms])
qed

lemma batch_body_alls:
  assumes "ws_is_open w"
  shows "alls (batch_body rs p w) =
         alls w @ [(p, [next_promise w ..< next_promise w + length rs])]"
proof -
  from assms obtain s where s: "ws w = Some s" "ready_state_of w s = Some OPEN"
    by (auto simp: ws_is_open_def split: option.splits)
  let ?qs = "fst (assign_ids rs (requestId w))"
  let ?w1 = "w\<lparr>requestId := snd (assign_ids rs (requestId w))\<rparr>"
  let ?w2 = "snd (register_all ?qs ?w1)"
  have "ready_state_of ?w2 s = Some OPEN"
    using s(2) by (simp add: ready_state_of_def)
  then have send: "ws_send s (Array ?qs) ?w2 = Inr (?w2\<lparr>sent := sent ?w2 @ [(s, Array ?qs)]\<rparr>)"
    by (simp add: ws_send_def)
  have "batch_body rs p w =
      promise_all p (fst (register_all ?qs ?w1)) (?w2\<lparr>sent := sent ?w2 @ [(s, Array ?qs)]\<rparr>)"
    using s(1) send by (simp add: batch_body_def split_beta Let_def)
  then show ?thesis
    by (simp add: register_all_promises assign_ids_ids(3))
qed




end
